theory Spec2Isabelle
  imports Complex_Main "HOL-Library.Sublist"
begin

section \<open>Strings\<close>

text \<open>
  A JavaScript string is modelled as a \<^typ>\<open>string\<close>: the list of its code units, each
  an 8-bit \<^typ>\<open>char\<close>. Every literal of \<^verbatim>\<open>src/util/mapbox.js\<close> is ASCII. Of the four
  line terminators that the regular expression atom \<^verbatim>\<open>.\<close> excludes, line feed and
  carriage return are characters of the model; U+2028 and U+2029 lie outside it.
\<close>

text \<open>
  \<^verbatim>\<open>String.prototype.indexOf\<close>: the least index at which the pattern occurs, \<open>-1\<close>
  when it occurs nowhere.
\<close>

fun indexOf_from :: "string \<Rightarrow> string \<Rightarrow> int \<Rightarrow> int" where
  "indexOf_from [] pat i = (if pat = [] then i else - 1)"
| "indexOf_from (c # cs) pat i =
     (if prefix pat (c # cs) then i else indexOf_from cs pat (i + 1))"

definition indexOf :: "string \<Rightarrow> string \<Rightarrow> int" where
  "indexOf s pat = indexOf_from s pat 0"

text \<open>
  \<^verbatim>\<open>String.prototype.split\<close> with a one-character separator: the result is never
  empty (lemma \<open>split_nonempty\<close> below), and \<^verbatim>\<open>"".split("&")\<close> is \<^verbatim>\<open>[""]\<close>.
\<close>

fun split :: "char \<Rightarrow> string \<Rightarrow> string list" where
  "split sep [] = [[]]"
| "split sep (c # cs) =
     (if c = sep then [] # split sep cs
      else (case split sep cs of y # ys \<Rightarrow> (c # y) # ys))"

text \<open>\<^verbatim>\<open>Array.prototype.join\<close>.\<close>

fun join :: "string \<Rightarrow> string list \<Rightarrow> string" where
  "join sep [] = []"
| "join sep [x] = x"
| "join sep (x # y # ys) = x @ sep @ join sep (y # ys)"

text \<open>
  JavaScript truthiness of a value of type \<^verbatim>\<open>?string\<close>: \<^verbatim>\<open>null\<close>, \<^verbatim>\<open>undefined\<close>
  (both \<^const>\<open>None\<close>) and the empty string are falsy. \<open>or_else a b\<close> is \<^verbatim>\<open>a || b\<close>.
\<close>

definition truthy :: "string option \<Rightarrow> bool" where
  "truthy v = (case v of None \<Rightarrow> False | Some s \<Rightarrow> s \<noteq> [])"

definition or_else :: "string option \<Rightarrow> string option \<Rightarrow> string option" where
  "or_else a b = (if truthy a then a else b)"

section \<open>Regular expressions\<close>

text \<open>
  The fragment of ECMAScript regular expressions that the two patterns of the module
  use. Quantifiers \<^verbatim>\<open>*\<close> and \<^verbatim>\<open>+\<close> occur only on single-character atoms (a class
  or an escape), so \<open>Star\<close> and \<open>Plus\<close> take a predicate on characters.
\<close>

datatype regex =
    Lit string
  | Star "char \<Rightarrow> bool"
  | Plus "char \<Rightarrow> bool"
  | Opt regex
  | Alt regex regex
  | Seq regex regex
  | Group nat regex
  | Bol
  | Eol
  | Ahead regex

text \<open>
  The matcher's state: the index reached in the subject, the text from there on, and
  the capture groups that have matched so far (an absent group is \<^verbatim>\<open>undefined\<close>).
\<close>

record mstate =
  pos :: nat
  rest :: string
  caps :: "nat \<rightharpoonup> string"

text \<open>
  Backtracking matching with priorities, in continuation style: \<open>k\<close> matches what
  follows the pattern, and a choice whose continuation fails falls back to the next
  alternative. A greedy quantifier tries the longest repetition first, an optional part
  is tried before it is left out, and the left side of an alternative before the right.
  A group records the text that its pattern consumed; a lookahead keeps the groups of
  its first match and consumes nothing. No optional part of the two patterns can match
  the empty text, so the rule of the language that rejects an empty repetition never
  applies.
\<close>

fun greedy :: "(char \<Rightarrow> bool) \<Rightarrow> (mstate \<Rightarrow> mstate option) \<Rightarrow> nat \<Rightarrow> string \<Rightarrow>
    (nat \<rightharpoonup> string) \<Rightarrow> mstate option" where
  "greedy P k i [] g = k \<lparr>pos = i, rest = [], caps = g\<rparr>"
| "greedy P k i (c # cs) g =
     (if P c then
        (case greedy P k (Suc i) cs g of
           Some r \<Rightarrow> Some r
         | None \<Rightarrow> k \<lparr>pos = i, rest = c # cs, caps = g\<rparr>)
      else k \<lparr>pos = i, rest = c # cs, caps = g\<rparr>)"

primrec matches :: "regex \<Rightarrow> (mstate \<Rightarrow> mstate option) \<Rightarrow> mstate \<Rightarrow> mstate option" where
  "matches (Lit cs) k st =
     (if prefix cs (rest st)
      then k (st\<lparr>pos := pos st + length cs, rest := drop (length cs) (rest st)\<rparr>)
      else None)"
| "matches (Star P) k st = greedy P k (pos st) (rest st) (caps st)"
| "matches (Plus P) k st =
     (case rest st of
        [] \<Rightarrow> None
      | c # cs \<Rightarrow> if P c then greedy P k (Suc (pos st)) cs (caps st) else None)"
| "matches (Opt r) k st =
     (case matches r k st of Some x \<Rightarrow> Some x | None \<Rightarrow> k st)"
| "matches (Alt a b) k st =
     (case matches a k st of Some x \<Rightarrow> Some x | None \<Rightarrow> matches b k st)"
| "matches (Seq a b) k st = matches a (matches b k) st"
| "matches (Group n r) k st =
     matches r (\<lambda>st'. k (st'\<lparr>caps := (caps st')(n \<mapsto> take (pos st' - pos st) (rest st))\<rparr>)) st"
| "matches Bol k st = (if pos st = 0 then k st else None)"
| "matches Eol k st = (if rest st = [] then k st else None)"
| "matches (Ahead r) k st =
     (case matches r Some st of
        Some st' \<Rightarrow> k (st\<lparr>caps := caps st'\<rparr>)
      | None \<Rightarrow> None)"

text \<open>
  \<^verbatim>\<open>RegExp.prototype.exec\<close> for a pattern without flags: the match is tried at index
  0, then 1, and so on to the end of the subject; the first index with a match wins.
  The result is that index and the final state of the matcher.
\<close>

fun exec_from :: "regex \<Rightarrow> nat \<Rightarrow> string \<Rightarrow> (nat \<times> mstate) option" where
  "exec_from r i [] =
     (case matches r Some \<lparr>pos = i, rest = [], caps = Map.empty\<rparr> of
        Some st \<Rightarrow> Some (i, st)
      | None \<Rightarrow> None)"
| "exec_from r i (c # cs) =
     (case matches r Some \<lparr>pos = i, rest = c # cs, caps = Map.empty\<rparr> of
        Some st \<Rightarrow> Some (i, st)
      | None \<Rightarrow> exec_from r (Suc i) cs)"

definition exec :: "regex \<Rightarrow> string \<Rightarrow> (nat \<times> mstate) option" where
  "exec r s = exec_from r 0 s"

text \<open>
  The replacement text of \<^verbatim>\<open>String.prototype.replace\<close>: \<^verbatim>\<open>$$\<close> is a dollar sign,
  \<^verbatim>\<open>$&\<close> the matched text, \<^verbatim>\<open>$`\<close> and \<^verbatim>\<open>$'\<close> the text before and after the
  match, and \<^verbatim>\<open>$1\<close> to \<^verbatim>\<open>$9\<close> a capture group of the pattern (empty when the group
  did not take part in the match). Anything else is literal, also a \<^verbatim>\<open>$n\<close> beyond the
  number of groups of the pattern.
\<close>

primrec groups :: "regex \<Rightarrow> nat" where
  "groups (Lit cs) = 0"
| "groups (Star P) = 0"
| "groups (Plus P) = 0"
| "groups (Opt r) = groups r"
| "groups (Alt a b) = groups a + groups b"
| "groups (Seq a b) = groups a + groups b"
| "groups (Group n r) = Suc (groups r)"
| "groups Bol = 0"
| "groups Eol = 0"
| "groups (Ahead r) = groups r"

definition digit_val :: "char \<Rightarrow> nat option" where
  "digit_val c = map_of [(CHR ''1'', 1), (CHR ''2'', 2), (CHR ''3'', 3), (CHR ''4'', 4),
     (CHR ''5'', 5), (CHR ''6'', 6), (CHR ''7'', 7), (CHR ''8'', 8), (CHR ''9'', 9)] c"

fun expand :: "string \<Rightarrow> string \<Rightarrow> string \<Rightarrow> string \<Rightarrow> (nat \<rightharpoonup> string) \<Rightarrow> nat \<Rightarrow> string" where
  "expand [] before m after g n = []"
| "expand [c] before m after g n = [c]"
| "expand (c # d # cs) before m after g n =
     (if c \<noteq> CHR ''$'' then c # expand (d # cs) before m after g n
      else if d = CHR ''$'' then CHR ''$'' # expand cs before m after g n
      else if d = CHR ''&'' then m @ expand cs before m after g n
      else if d = CHR 0x60 then before @ expand cs before m after g n
      else if d = CHR 0x27 then after @ expand cs before m after g n
      else (case digit_val d of
              Some j \<Rightarrow>
                if j \<le> n
                then (case g j of Some t \<Rightarrow> t | None \<Rightarrow> []) @ expand cs before m after g n
                else c # expand (d # cs) before m after g n
            | None \<Rightarrow> c # expand (d # cs) before m after g n))"

text \<open>
  \<^verbatim>\<open>s.replace(re, repl)\<close> for a pattern without the global flag: the first match, if
  any, is replaced; without a match the subject is returned as it is.
\<close>

definition replace :: "string \<Rightarrow> regex \<Rightarrow> string \<Rightarrow> string" where
  "replace s r repl =
     (case exec r s of
        None \<Rightarrow> s
      | Some (i, st) \<Rightarrow>
          (let before = take i s; m = take (pos st - i) (drop i s); after = rest st
           in before @ expand repl before m after (caps st) (groups r) @ after))"

text \<open>The character classes \<^verbatim>\<open>\w\<close>, \<^verbatim>\<open>\d\<close> and \<^verbatim>\<open>.\<close>.\<close>

definition word_char :: "char \<Rightarrow> bool" where
  "word_char c =
     (c \<in> set ''abcdefghijklmnopqrstuvwxyzABCDEFGHIJKLMNOPQRSTUVWXYZ0123456789_'')"

definition digit_char :: "char \<Rightarrow> bool" where
  "digit_char c = (c \<in> set ''0123456789'')"

definition dot_char :: "char \<Rightarrow> bool" where
  "dot_char c = (c \<noteq> CHR 0x0A \<and> c \<noteq> CHR 0x0D)"

section \<open>Configuration and errors\<close>

text \<open>
  The module reads \<^verbatim>\<open>config\<close> and \<^verbatim>\<open>browser\<close>, which other modules own; they are
  parameters here.
\<close>

record config =
  API_URL :: string
  EVENTS_URL :: string
  REQUIRE_ACCESS_TOKEN :: bool
  ACCESS_TOKEN :: "string option"

record browser =
  devicePixelRatio :: rat
  supportsWebp :: bool

text \<open>
  The three \<^verbatim>\<open>throw new Error(...)\<close> of the URL functions, by message:
  "Unable to parse URL object", "An API access token is required ..." and
  "Use a public access token (pk.*) ... not a secret access token (sk.*)".
  \<open>JsonSyntaxError\<close> is what \<^verbatim>\<open>JSON.parse\<close> throws.
\<close>

datatype error = MalformedURLError | MissingTokenError | SecretTokenError | JsonSyntaxError

section \<open>Parsing and formatting URLs\<close>

record UrlObject =
  protocol :: string
  authority :: string
  path :: string
  params :: "string list"

text \<open>\<^verbatim>\<open>/^(\w+):\/\/([^/?]*)(\/[^?]+)?\??(.+)?/\<close>\<close>

definition urlRe :: regex where
  "urlRe =
     Seq Bol
    (Seq (Group 1 (Plus word_char))
    (Seq (Lit ''://'')
    (Seq (Group 2 (Star (\<lambda>c. c \<noteq> CHR ''/'' \<and> c \<noteq> CHR ''?'')))
    (Seq (Opt (Group 3 (Seq (Lit ''/'') (Plus (\<lambda>c. c \<noteq> CHR ''?'')))))
    (Seq (Opt (Lit ''?''))
         (Opt (Group 4 (Plus dot_char))))))))"

text \<open>
  \<open>parts[1]\<close> and \<open>parts[2]\<close> are groups that every match fills (lemma
  \<open>urlRe_groups\<close> below); \<open>parts[3] || '/'\<close> and \<open>parts[4] ? ... : []\<close> test
  truthiness, so an absent and an empty group count alike.
\<close>

definition parseUrl :: "string \<Rightarrow> error + UrlObject" where
  "parseUrl url =
     (case exec urlRe url of
        None \<Rightarrow> Inl MalformedURLError
      | Some (i, st) \<Rightarrow>
          Inr \<lparr>protocol = the (caps st 1),
               authority = the (caps st 2),
               path = (if truthy (caps st 3) then the (caps st 3) else ''/''),
               params = (if truthy (caps st 4) then split (CHR ''&'') (the (caps st 4)) else [])\<rparr>)"

definition formatUrl :: "UrlObject \<Rightarrow> string" where
  "formatUrl obj =
     (let ps = (if length (params obj) \<noteq> 0 then ''?'' @ join ''&'' (params obj) else '''')
      in protocol obj @ ''://'' @ authority obj @ path obj @ ps)"

section \<open>Resolving locators\<close>

definition makeAPIURL :: "config \<Rightarrow> UrlObject \<Rightarrow> string option \<Rightarrow> error + string" where
  "makeAPIURL cfg urlObject accessToken =
     (case parseUrl (API_URL cfg) of
        Inl e \<Rightarrow> Inl e
      | Inr apiUrlObject \<Rightarrow>
          (let u1 = urlObject\<lparr>protocol := protocol apiUrlObject,
                              authority := authority apiUrlObject\<rparr>;
               u2 = (if path apiUrlObject \<noteq> ''/''
                     then u1\<lparr>path := path apiUrlObject @ path u1\<rparr> else u1)
           in if \<not> REQUIRE_ACCESS_TOKEN cfg then Inr (formatUrl u2)
              else (let tok = or_else accessToken (ACCESS_TOKEN cfg)
                    in if \<not> truthy tok then Inl MissingTokenError
                       else if hd (the tok) = CHR ''s'' then Inl SecretTokenError
                       else Inr (formatUrl
                              (u2\<lparr>params := params u2 @ [''access_token='' @ the tok]\<rparr>)))))"

definition isMapboxURL :: "string \<Rightarrow> bool" where
  "isMapboxURL url = (indexOf url ''mapbox:'' = 0)"

definition normalizeStyleURL :: "config \<Rightarrow> string \<Rightarrow> string option \<Rightarrow> error + string" where
  "normalizeStyleURL cfg url accessToken =
     (if \<not> isMapboxURL url then Inr url
      else (case parseUrl url of
              Inl e \<Rightarrow> Inl e
            | Inr urlObject \<Rightarrow>
                makeAPIURL cfg (urlObject\<lparr>path := ''/styles/v1'' @ path urlObject\<rparr>) accessToken))"

definition normalizeGlyphsURL :: "config \<Rightarrow> string \<Rightarrow> string option \<Rightarrow> error + string" where
  "normalizeGlyphsURL cfg url accessToken =
     (if \<not> isMapboxURL url then Inr url
      else (case parseUrl url of
              Inl e \<Rightarrow> Inl e
            | Inr urlObject \<Rightarrow>
                makeAPIURL cfg (urlObject\<lparr>path := ''/fonts/v1'' @ path urlObject\<rparr>) accessToken))"

definition normalizeSourceURL :: "config \<Rightarrow> string \<Rightarrow> string option \<Rightarrow> error + string" where
  "normalizeSourceURL cfg url accessToken =
     (if \<not> isMapboxURL url then Inr url
      else (case parseUrl url of
              Inl e \<Rightarrow> Inl e
            | Inr urlObject \<Rightarrow>
                makeAPIURL cfg
                  (urlObject\<lparr>path := ''/v4/'' @ authority urlObject @ ''.json'',
                             params := params urlObject @ [''secure'']\<rparr>)
                  accessToken))"

definition normalizeSpriteURL ::
    "config \<Rightarrow> string \<Rightarrow> string \<Rightarrow> string \<Rightarrow> string option \<Rightarrow> error + string" where
  "normalizeSpriteURL cfg url format extension accessToken =
     (case parseUrl url of
        Inl e \<Rightarrow> Inl e
      | Inr urlObject \<Rightarrow>
          if \<not> isMapboxURL url
          then Inr (formatUrl (urlObject\<lparr>path := path urlObject @ format @ extension\<rparr>))
          else makeAPIURL cfg
                 (urlObject\<lparr>path := ''/styles/v1'' @ path urlObject @ ''/sprite'' @ format @ extension\<rparr>)
                 accessToken)"

text \<open>\<^verbatim>\<open>/(\.(png|jpg)\d*)(?=$)/\<close>\<close>

definition imageExtensionRe :: regex where
  "imageExtensionRe =
     Seq (Group 1 (Seq (Lit ''.'')
                  (Seq (Group 2 (Alt (Lit ''png'') (Lit ''jpg'')))
                       (Star digit_char))))
         (Ahead Eol)"

text \<open>
  The loop of \<open>replaceTempAccessToken\<close> overwrites, in place, every element that
  starts with \<^verbatim>\<open>access_token=tk.\<close>; the other elements and the length stay.
\<close>

fun replaceTempAccessToken :: "config \<Rightarrow> string list \<Rightarrow> string list" where
  "replaceTempAccessToken cfg [] = []"
| "replaceTempAccessToken cfg (p # ps) =
     (if indexOf p ''access_token=tk.'' = 0
      then (''access_token='' @ the (or_else (ACCESS_TOKEN cfg) (Some ''''))) #
             replaceTempAccessToken cfg ps
      else p # replaceTempAccessToken cfg ps)"

text \<open>
  \<open>sourceURL\<close> and \<open>tileSize\<close> are optional arguments: \<^const>\<open>None\<close> is an argument
  left out, \<^verbatim>\<open>null\<close> or \<^verbatim>\<open>undefined\<close>.
\<close>

definition normalizeTileURL ::
    "config \<Rightarrow> browser \<Rightarrow> string \<Rightarrow> string option \<Rightarrow> rat option \<Rightarrow> error + string" where
  "normalizeTileURL cfg br tileURL sourceURL tileSize =
     (if \<not> truthy sourceURL \<or> \<not> isMapboxURL (the sourceURL) then Inr tileURL
      else (case parseUrl tileURL of
              Inl e \<Rightarrow> Inl e
            | Inr urlObject \<Rightarrow>
                (let suffix = (if devicePixelRatio br \<ge> 2 \<or> tileSize = Some 512
                               then ''@2x'' else '''');
                     extension = (if supportsWebp br then ''.webp'' else ''$1'');
                     u1 = urlObject\<lparr>path := replace (path urlObject) imageExtensionRe
                                                  (suffix @ extension)\<rparr>
                 in Inr (formatUrl (u1\<lparr>params := replaceTempAccessToken cfg (params u1)\<rparr>)))))"

section \<open>The usage report\<close>

text \<open>
  What \<^verbatim>\<open>postTurnstileEvent\<close> takes from outside the module is a parameter: the
  answer of \<^verbatim>\<open>storageAvailable('localSotorage')\<close>, \<^verbatim>\<open>validateUuid\<close>, the value
  that \<^verbatim>\<open>uuid()\<close> returns, the clock (milliseconds since the epoch; the readings of one
  synchronous call are one instant), the local calendar behind \<^verbatim>\<open>Date.prototype.getDate\<close>,
  \<^verbatim>\<open>toISOString\<close> and the package's version.
\<close>

record environment =
  localStorageAvailable :: bool
  validateUuid :: "string option \<Rightarrow> bool"
  uuid :: string
  now :: int
  getDate :: "int \<Rightarrow> int"
  toISOString :: "int \<Rightarrow> string"
  version :: string

text \<open>
  The entry \<^verbatim>\<open>mapbox.userTurnstileData\<close> of \<^verbatim>\<open>window.localStorage\<close>: an empty text
  (falsy), a text that \<^verbatim>\<open>JSON.parse\<close> rejects, or the JSON of a record whose two
  properties may be absent. \<open>lastSuccess\<close> holds what \<^verbatim>\<open>Date.now()\<close> returned, an integer.
\<close>

record turnstileData =
  anonId :: "string option"
  lastSuccess :: "int option"

datatype stored = EmptyText | Unparsable | Json turnstileData

type_synonym storage = "string \<rightharpoonup> stored"

record turnstileEvent =
  event :: string
  created :: string
  sdkIdentifier :: string
  sdkVersion :: string
  enabled_telemetry :: bool
  userId :: "string option"

record request =
  xhrMethod :: string
  xhrUrl :: string
  xhrAsync :: bool
  xhrHeaders :: "(string \<times> string) list"
  xhrBody :: "turnstileEvent list"

datatype outcome = Returned | Threw error | Sent request

text \<open>Lines 130 to 140: the cached \<open>anonId\<close> and \<open>lastUpdateTime\<close>, both \<^verbatim>\<open>null\<close> at first.\<close>

definition retrieve :: "environment \<Rightarrow> storage \<Rightarrow> error + (string option \<times> int option)" where
  "retrieve env store =
     (if localStorageAvailable env then
        (case store ''mapbox.userTurnstileData'' of
           None \<Rightarrow> Inr (None, None)
         | Some EmptyText \<Rightarrow> Inr (None, None)
         | Some Unparsable \<Rightarrow> Inl JsonSyntaxError
         | Some (Json json) \<Rightarrow> Inr (anonId json, lastSuccess json))
      else Inr (None, None))"

text \<open>
  \<^verbatim>\<open>new Date(v)\<close>: a time value beyond 8.64e15 milliseconds either side of the epoch
  makes an invalid date, whose time value and day of the month are \<^verbatim>\<open>NaN\<close>
  (\<^const>\<open>None\<close>).
\<close>

definition newDate :: "int \<Rightarrow> int option" where
  "newDate v = (if \<bar>v\<bar> \<le> 8640000000000000 then Some v else None)"

text \<open>
  Lines 147 to 155, the test that ends the call early. \<open>lastUpdateTime\<close> is tested
  for truthiness, so a stored 0 counts as none. The quotient \<open>daysElapsed\<close> is a
  double in the source; for integer time values its comparisons with 0 and 1 come out as
  those of the exact quotient. Every comparison with \<^verbatim>\<open>NaN\<close> is false.
\<close>

definition recordedToday :: "environment \<Rightarrow> int option \<Rightarrow> bool" where
  "recordedToday env lastUpdateTime =
     (case lastUpdateTime of
        None \<Rightarrow> False
      | Some t \<Rightarrow>
          if t = 0 then False
          else (case newDate t of
                  None \<Rightarrow> False
                | Some lastUpdate \<Rightarrow>
                    (let daysElapsed = (of_int (now env - lastUpdate) :: rat) / (24 * 60 * 60 * 1000)
                     in getDate env lastUpdate = getDate env (now env) \<and>
                        daysElapsed \<ge> 0 \<and> daysElapsed < 1)))"

definition postTurnstileEvent :: "config \<Rightarrow> environment \<Rightarrow> storage \<Rightarrow> outcome" where
  "postTurnstileEvent cfg env store =
     (if \<not> truthy (ACCESS_TOKEN cfg) then Returned
      else (case retrieve env store of
              Inl e \<Rightarrow> Threw e
            | Inr (cached, lastUpdateTime) \<Rightarrow>
                (let aid = (if \<not> validateUuid env cached then Some (uuid env) else cached)
                 in if recordedToday env lastUpdateTime then Returned
                    else (case parseUrl (EVENTS_URL cfg) of
                            Inl e \<Rightarrow> Threw e
                          | Inr evenstUrlObject \<Rightarrow>
                              Sent \<lparr>xhrMethod = ''POST'',
                                    xhrUrl = formatUrl (evenstUrlObject\<lparr>params :=
                                            params evenstUrlObject @
                                            [''access_token='' @
                                               the (or_else (ACCESS_TOKEN cfg) (Some ''''))]\<rparr>),
                                    xhrAsync = True,
                                    xhrHeaders = [(''Content-Type'', ''text/plain'')],
                                    xhrBody = [\<lparr>event = ''appUserTurnstile'',
                                             created = toISOString env (now env),
                                             sdkIdentifier = ''mapbox-gl-js'',
                                             sdkVersion = version env,
                                             enabled_telemetry = False,
                                             userId = aid\<rparr>]\<rparr>))))"

text \<open>
  The \<^verbatim>\<open>onreadystatechange\<close> handler of the request, lines 166 to 174. It closes over
  \<open>localStorageAvailable\<close> and \<open>anonId\<close>; \<open>readyState\<close> and \<open>status\<close> are the
  request's at the time of the call, \<open>t\<close> is \<^verbatim>\<open>Date.now()\<close> then. In JavaScript
  \<^verbatim>\<open>&&\<close> binds tighter than \<^verbatim>\<open>||\<close>, so the condition reads \<^verbatim>\<open>(a && b && c) || d\<close>.
\<close>

definition onreadystatechange ::
    "environment \<Rightarrow> string option \<Rightarrow> nat \<Rightarrow> nat \<Rightarrow> int \<Rightarrow> storage \<Rightarrow> storage" where
  "onreadystatechange env aid readyState status t store =
     (if (localStorageAvailable env \<and> readyState = 4 \<and> status = 200) \<or> status = 204
      then store(''mapbox.userTurnstileData'' \<mapsto> Json \<lparr>anonId = aid, lastSuccess = Some t\<rparr>)
      else store)"

section \<open>Vocabulary of the statements\<close>

text \<open>
  A path "ends in \<^verbatim>\<open>.png\<close> or \<^verbatim>\<open>.jpg\<close> optionally followed by digits": what is left
  of it once the digits at its end are taken away ends in one of the two extensions.
\<close>

definition endsWithImageExtension :: "string \<Rightarrow> bool" where
  "endsWithImageExtension p =
     (let stem = rev (dropWhile digit_char (rev p))
      in suffix ''.png'' stem \<or> suffix ''.jpg'' stem)"

text \<open>
  The matching relation of a pattern, without priorities: \<open>sem r st st'\<close> when \<open>r\<close>
  can take the matcher from state \<open>st\<close> to state \<open>st'\<close>. Whatever \<open>matches\<close>
  returns went through such a step (lemma \<open>matches_sem\<close>).
\<close>

primrec sem :: "regex \<Rightarrow> mstate \<Rightarrow> mstate \<Rightarrow> bool" where
  "sem (Lit cs) st st' =
     (prefix cs (rest st) \<and>
      st' = st\<lparr>pos := pos st + length cs, rest := drop (length cs) (rest st)\<rparr>)"
| "sem (Star P) st st' =
     (\<exists>n \<le> length (takeWhile P (rest st)).
        st' = st\<lparr>pos := pos st + n, rest := drop n (rest st)\<rparr>)"
| "sem (Plus P) st st' =
     (\<exists>n \<le> length (takeWhile P (rest st)). 0 < n \<and>
        st' = st\<lparr>pos := pos st + n, rest := drop n (rest st)\<rparr>)"
| "sem (Opt r) st st' = (sem r st st' \<or> st' = st)"
| "sem (Alt a b) st st' = (sem a st st' \<or> sem b st st')"
| "sem (Seq a b) st st' = (\<exists>m. sem a st m \<and> sem b m st')"
| "sem (Group n r) st st' =
     (\<exists>m. sem r st m \<and> st' = m\<lparr>caps := (caps m)(n \<mapsto> take (pos m - pos st) (rest st))\<rparr>)"
| "sem Bol st st' = (pos st = 0 \<and> st' = st)"
| "sem Eol st st' = (rest st = [] \<and> st' = st)"
| "sem (Ahead r) st st' = (\<exists>m. sem r st m \<and> st' = st\<lparr>caps := caps m\<rparr>)"

section \<open>Facts about the string and pattern primitives\<close>

lemmas url_eval =
  parseUrl_def exec_def urlRe_def word_char_def dot_char_def digit_char_def truthy_def
  formatUrl_def or_else_def isMapboxURL_def indexOf_def makeAPIURL_def

lemma indexOf_from_range: "indexOf_from s pat i = - 1 \<or> i \<le> indexOf_from s pat i"
proof (induction s arbitrary: i)
  case Nil
  then show ?case by simp
next
  case (Cons c cs)
  from Cons.IH [of "i + 1"] show ?case by auto
qed

lemma indexOf_from_start: "0 \<le> i \<Longrightarrow> (indexOf_from s pat i = i) = prefix pat s"
proof (cases s)
  case Nil
  assume "0 \<le> i"
  with Nil show ?thesis by auto
next
  case (Cons c cs)
  assume "0 \<le> i"
  with Cons indexOf_from_range [of cs pat "i + 1"] show ?thesis by auto
qed

text \<open>\<^verbatim>\<open>url.indexOf('mapbox:') === 0\<close> says that the locator starts with \<^verbatim>\<open>mapbox:\<close>.\<close>

lemma isMapboxURL_prefix: "isMapboxURL s = prefix ''mapbox:'' s"
  by (simp add: isMapboxURL_def indexOf_def indexOf_from_start)

text \<open>The loop of \<open>replaceTempAccessToken\<close> as a map over the parameters.\<close>

lemma replaceTempAccessToken_map:
  "replaceTempAccessToken cfg ps =
     map (\<lambda>q. if prefix ''access_token=tk.'' q
              then ''access_token='' @ (case ACCESS_TOKEN cfg of None \<Rightarrow> '''' | Some a \<Rightarrow> a)
              else q) ps"
  by (induction ps)
    (auto simp: indexOf_def indexOf_from_start or_else_def truthy_def split: option.splits)

text \<open>
  A greedy repetition that succeeds has handed some prefix of the longest run to its
  continuation.
\<close>

lemma greedy_Some:
  "greedy P k i s g = Some r \<Longrightarrow>
     \<exists>n \<le> length (takeWhile P s). k \<lparr>pos = i + n, rest = drop n s, caps = g\<rparr> = Some r"
proof (induction s arbitrary: i)
  case Nil
  then show ?case by simp
next
  case (Cons c cs)
  show ?case
  proof (cases "P c")
    case False
    with Cons.prems show ?thesis by simp
  next
    case True
    show ?thesis
    proof (cases "greedy P k (Suc i) cs g")
      case None
      with True Cons.prems have "k \<lparr>pos = i + 0, rest = drop 0 (c # cs), caps = g\<rparr> = Some r"
        by simp
      then show ?thesis by blast
    next
      case (Some r')
      with True Cons.prems have "greedy P k (Suc i) cs g = Some r" by simp
      from Cons.IH [OF this] obtain n where
        n: "n \<le> length (takeWhile P cs)" "k \<lparr>pos = Suc i + n, rest = drop n cs, caps = g\<rparr> = Some r"
        by blast
      with True have "Suc n \<le> length (takeWhile P (c # cs))"
        and "k \<lparr>pos = i + Suc n, rest = drop (Suc n) (c # cs), caps = g\<rparr> = Some r"
        by simp_all
      then show ?thesis by blast
    qed
  qed
qed


text \<open>A match found by \<open>exec_from\<close> is a match of the pattern at some suffix of the subject.\<close>

lemma exec_from_Some:
  "exec_from r i s = Some (j, st) \<Longrightarrow>
     \<exists>n \<le> length s. j = i + n \<and>
        matches r Some \<lparr>pos = j, rest = drop n s, caps = Map.empty\<rparr> = Some st"
proof (induction s arbitrary: i)
  case Nil
  then show ?case by (auto split: option.splits)
next
  case (Cons c cs)
  show ?case
  proof (cases "matches r Some \<lparr>pos = i, rest = c # cs, caps = Map.empty\<rparr>")
    case (Some st')
    with Cons.prems have "j = i + 0 \<and>
        matches r Some \<lparr>pos = j, rest = drop 0 (c # cs), caps = Map.empty\<rparr> = Some st"
      by simp
    then show ?thesis by blast
  next
    case None
    with Cons.prems have "exec_from r (Suc i) cs = Some (j, st)" by simp
    from Cons.IH [OF this] obtain n where
      "n \<le> length cs" "j = Suc i + n"
      "matches r Some \<lparr>pos = j, rest = drop n cs, caps = Map.empty\<rparr> = Some st"
      by blast
    then have "Suc n \<le> length (c # cs) \<and> j = i + Suc n \<and>
        matches r Some \<lparr>pos = j, rest = drop (Suc n) (c # cs), caps = Map.empty\<rparr> = Some st"
      by simp
    then show ?thesis by blast
  qed
qed

subsection \<open>Splitting and joining\<close>

text \<open>
  The last branch of \<open>split\<close> always finds a non-empty list, and joining what was
  split gives the text back.
\<close>

lemma split_nonempty: "split sep s \<noteq> []"
  by (induction s) (auto split: list.splits)

lemma join_Cons_Cons: "join sep ((c # y) # ys) = c # join sep (y # ys)"
  by (cases ys) simp_all

lemma join_split: "join [sep] (split sep s) = s"
proof (induction s)
  case Nil
  then show ?case by simp
next
  case (Cons c cs)
  obtain y ys where y: "split sep cs = y # ys"
    using split_nonempty [of sep cs] by (cases "split sep cs") auto
  with Cons show ?case by (simp add: join_Cons_Cons)
qed

text \<open>Splitting what was joined gives the parts back when none of them holds the separator.\<close>

lemma split_no_sep: "sep \<notin> set x \<Longrightarrow> split sep x = [x]"
  by (induction x) auto

lemma split_append_sep: "sep \<notin> set x \<Longrightarrow> split sep (x @ sep # r) = x # split sep r"
  by (induction x) auto

lemma split_join:
  assumes "ps \<noteq> []" and "\<forall>x \<in> set ps. sep \<notin> set x"
  shows "split sep (join [sep] ps) = ps"
  using assms
proof (induction ps rule: induct_list012)
  case 1
  then show ?case by simp
next
  case (2 x)
  then show ?case by (simp add: split_no_sep)
next
  case (3 x y zs)
  then show ?case by (simp add: split_append_sep)
qed

lemma set_join: "c \<in> set (join sep ps) \<Longrightarrow> c \<in> set sep \<or> (\<exists>x \<in> set ps. c \<in> set x)"
  by (induction sep ps rule: join.induct) auto

subsection \<open>The matching relation\<close>

lemma matches_sem:
  "matches r k st = Some x \<Longrightarrow> \<exists>st'. sem r st st' \<and> k st' = Some x"
proof (induction r arbitrary: k st x)
  case (Lit cs)
  then show ?case by (auto split: if_splits)
next
  case (Star P)
  from Star obtain n where "n \<le> length (takeWhile P (rest st))"
    "k \<lparr>pos = pos st + n, rest = drop n (rest st), caps = caps st\<rparr> = Some x"
    by (auto dest: greedy_Some)
  then show ?case
    by (auto intro!: exI [of _ "\<lparr>pos = pos st + n, rest = drop n (rest st), caps = caps st\<rparr>"] exI [of _ n])
next
  case (Plus P)
  then obtain c cs where c: "rest st = c # cs" "P c" "greedy P k (Suc (pos st)) cs (caps st) = Some x"
    by (auto split: list.splits if_splits)
  then obtain n where n: "n \<le> length (takeWhile P cs)"
    "k \<lparr>pos = Suc (pos st) + n, rest = drop n cs, caps = caps st\<rparr> = Some x"
    by (auto dest: greedy_Some)
  with c show ?case
    by (auto intro!: exI [of _ "\<lparr>pos = Suc (pos st) + n, rest = drop n cs, caps = caps st\<rparr>"] exI [of _ "Suc n"])
next
  case (Opt r)
  show ?case
  proof (cases "matches r k st")
    case None
    with Opt.prems show ?thesis by auto
  next
    case (Some y)
    with Opt.prems have "matches r k st = Some x" by simp
    from Opt.IH [OF this] show ?thesis by auto
  qed
next
  case (Alt a b)
  show ?case
  proof (cases "matches a k st")
    case None
    with Alt.prems have "matches b k st = Some x" by simp
    from Alt.IH(2) [OF this] show ?thesis by auto
  next
    case (Some y)
    with Alt.prems have "matches a k st = Some x" by simp
    from Alt.IH(1) [OF this] show ?thesis by auto
  qed
next
  case (Seq a b)
  from Seq.prems have "matches a (matches b k) st = Some x" by simp
  from Seq.IH(1) [OF this] obtain m where m: "sem a st m" "matches b k m = Some x"
    by blast
  from Seq.IH(2) [OF m(2)] obtain st' where "sem b m st'" "k st' = Some x"
    by blast
  with m(1) show ?case by auto
next
  case (Group n r)
  from Group.prems
    Group.IH [of "\<lambda>st'. k (st'\<lparr>caps := (caps st')(n \<mapsto> take (pos st' - pos st) (rest st))\<rparr>)" st x]
  obtain m where "sem r st m"
    "k (m\<lparr>caps := (caps m)(n \<mapsto> take (pos m - pos st) (rest st))\<rparr>) = Some x"
    by auto
  then show ?case by auto
next
  case Bol
  then show ?case by (auto split: if_splits)
next
  case Eol
  then show ?case by (auto split: if_splits)
next
  case (Ahead r)
  from Ahead.prems obtain m where
    a: "matches r Some st = Some m" and k: "k (st\<lparr>caps := caps m\<rparr>) = Some x"
    by (auto split: option.splits)
  from Ahead.IH [OF a] have "sem r st m" by auto
  with k show ?case by auto
qed

lemma exec_sem:
  assumes "exec r s = Some (i, st)"
  shows "\<exists>n \<le> length s. i = n \<and> sem r \<lparr>pos = n, rest = drop n s, caps = Map.empty\<rparr> st"
proof -
  from assms exec_from_Some [of r 0 s i st] obtain n where
    "n \<le> length s" "i = n" "matches r Some \<lparr>pos = i, rest = drop n s, caps = Map.empty\<rparr> = Some st"
    by (auto simp: exec_def)
  with matches_sem [of r Some "\<lparr>pos = i, rest = drop n s, caps = Map.empty\<rparr>" st]
  show ?thesis by auto
qed

lemma take_takeWhile: "n \<le> length (takeWhile P xs) \<Longrightarrow> \<forall>c \<in> set (take n xs). P c"
proof (induction xs arbitrary: n)
  case Nil
  then show ?case by simp
next
  case (Cons x xs)
  show ?case
  proof (cases n)
    case 0
    then show ?thesis by simp
  next
    case (Suc m)
    with Cons.prems have "P x" "m \<le> length (takeWhile P xs)"
      by (auto split: if_splits)
    with Cons.IH [of m] Suc show ?thesis by simp
  qed
qed

text \<open>
  In the other direction: when the continuation accepts the state after the longest
  repetition, that is the result.
\<close>

lemma greedy_append:
  assumes "\<forall>c \<in> set xs. P c" and "case ys of [] \<Rightarrow> True | y # _ \<Rightarrow> \<not> P y"
    and "k \<lparr>pos = i + length xs, rest = ys, caps = g\<rparr> = Some r"
  shows "greedy P k i (xs @ ys) g = Some r"
  using assms
proof (induction xs arbitrary: i)
  case Nil
  then show ?case by (cases ys) auto
next
  case (Cons x xs)
  from Cons.prems have "greedy P k (Suc i) (xs @ ys) g = Some r"
    by (intro Cons.IH) auto
  with Cons.prems show ?case by simp
qed

lemma matches_Group_Plus:
  assumes "rest m = xs @ ys" and "xs \<noteq> []" and "\<forall>c \<in> set xs. P c"
    and "case ys of [] \<Rightarrow> True | y # _ \<Rightarrow> \<not> P y"
    and "k (m\<lparr>pos := pos m + length xs, rest := ys, caps := (caps m)(n \<mapsto> xs)\<rparr>) = Some r"
  shows "matches (Group n (Plus P)) k m = Some r"
proof -
  from assms(2) obtain x xs' where xs: "xs = x # xs'" by (cases xs) auto
  let ?k = "\<lambda>st'. k (st'\<lparr>caps := (caps st')(n \<mapsto> take (pos st' - pos m) (rest m))\<rparr>)"
  from assms xs have "?k \<lparr>pos = Suc (pos m) + length xs', rest = ys, caps = caps m\<rparr> = Some r"
    by (cases m) simp
  with assms(3,4) xs have "greedy P ?k (Suc (pos m)) (xs' @ ys) (caps m) = Some r"
    by (intro greedy_append) auto
  with assms(1,3) xs show ?thesis by simp
qed

lemma matches_Group_Star:
  assumes "rest m = xs @ ys" and "\<forall>c \<in> set xs. P c"
    and "case ys of [] \<Rightarrow> True | y # _ \<Rightarrow> \<not> P y"
    and "k (m\<lparr>pos := pos m + length xs, rest := ys, caps := (caps m)(n \<mapsto> xs)\<rparr>) = Some r"
  shows "matches (Group n (Star P)) k m = Some r"
proof -
  let ?k = "\<lambda>st'. k (st'\<lparr>caps := (caps st')(n \<mapsto> take (pos st' - pos m) (rest m))\<rparr>)"
  from assms have "?k \<lparr>pos = pos m + length xs, rest = ys, caps = caps m\<rparr> = Some r"
    by (cases m) simp
  with assms(2,3) have "greedy P ?k (pos m) (xs @ ys) (caps m) = Some r"
    by (intro greedy_append) auto
  with assms(1) show ?thesis by simp
qed

lemma matches_Group_path:
  assumes "rest m = CHR ''/'' # xs @ ys" and "xs \<noteq> []" and "\<forall>c \<in> set xs. P c"
    and "case ys of [] \<Rightarrow> True | y # _ \<Rightarrow> \<not> P y"
    and "k (m\<lparr>pos := pos m + Suc (length xs), rest := ys,
              caps := (caps m)(n \<mapsto> CHR ''/'' # xs)\<rparr>) = Some r"
  shows "matches (Group n (Seq (Lit ''/'') (Plus P))) k m = Some r"
proof -
  from assms(2) obtain x xs' where xs: "xs = x # xs'" by (cases xs) auto
  let ?k = "\<lambda>st'. k (st'\<lparr>caps := (caps st')(n \<mapsto> take (pos st' - pos m) (rest m))\<rparr>)"
  from assms xs have "?k \<lparr>pos = Suc (Suc (pos m)) + length xs', rest = ys, caps = caps m\<rparr> = Some r"
    by (cases m) simp
  with assms(3,4) xs have "greedy P ?k (Suc (Suc (pos m))) (xs' @ ys) (caps m) = Some r"
    by (intro greedy_append) auto
  with assms(1,3) xs show ?thesis by simp
qed

lemma exec_first:
  "matches r Some \<lparr>pos = 0, rest = s, caps = Map.empty\<rparr> = Some st \<Longrightarrow> exec r s = Some (0, st)"
  by (cases s) (simp_all add: exec_def)

subsection \<open>The URL pattern\<close>

text \<open>What a match of \<open>urlRe\<close> leaves in the four groups.\<close>

lemma sem_Group_Plus:
  assumes "sem (Group g (Plus P)) m m'"
  shows "\<exists>t. t \<noteq> [] \<and> (\<forall>c \<in> set t. P c) \<and> caps m' = (caps m)(g \<mapsto> t)"
proof -
  from assms obtain n where n: "n \<le> length (takeWhile P (rest m))" "0 < n"
    and m': "m' = m\<lparr>pos := pos m + n, rest := drop n (rest m),
               caps := (caps m)(g \<mapsto> take n (rest m))\<rparr>"
    by auto
  from n have "take n (rest m) \<noteq> []" by auto
  moreover from n have "\<forall>c \<in> set (take n (rest m)). P c" by (simp add: take_takeWhile)
  moreover from m' have "caps m' = (caps m)(g \<mapsto> take n (rest m))" by simp
  ultimately show ?thesis by blast
qed

lemma sem_Group_Star:
  assumes "sem (Group g (Star P)) m m'"
  shows "\<exists>t. (\<forall>c \<in> set t. P c) \<and> caps m' = (caps m)(g \<mapsto> t)"
proof -
  from assms obtain n where n: "n \<le> length (takeWhile P (rest m))"
    and m': "m' = m\<lparr>pos := pos m + n, rest := drop n (rest m),
               caps := (caps m)(g \<mapsto> take n (rest m))\<rparr>"
    by auto
  from n have "\<forall>c \<in> set (take n (rest m)). P c" by (simp add: take_takeWhile)
  moreover from m' have "caps m' = (caps m)(g \<mapsto> take n (rest m))" by simp
  ultimately show ?thesis by blast
qed

lemma sem_Group_path:
  assumes "sem (Group g (Seq (Lit ''/'') (Plus P))) m m'"
  shows "\<exists>t. t \<noteq> [] \<and> (\<forall>c \<in> set t. P c) \<and> caps m' = (caps m)(g \<mapsto> CHR ''/'' # t)"
proof -
  from assms obtain m1 m2 where l: "sem (Lit ''/'') m m1" and p: "sem (Plus P) m1 m2"
    and m': "m' = m2\<lparr>caps := (caps m2)(g \<mapsto> take (pos m2 - pos m) (rest m))\<rparr>"
    by auto
  from l obtain r where r: "rest m = CHR ''/'' # r" and m1: "m1 = m\<lparr>pos := Suc (pos m), rest := r\<rparr>"
    by (cases "rest m") auto
  from p m1 obtain n where n: "n \<le> length (takeWhile P r)" "0 < n"
    and m2: "m2 = m\<lparr>pos := Suc (pos m) + n, rest := drop n r\<rparr>"
    by auto
  from n have "take n r \<noteq> []" by auto
  moreover from n have "\<forall>c \<in> set (take n r). P c" by (simp add: take_takeWhile)
  moreover from m' m2 r have "caps m' = (caps m)(g \<mapsto> CHR ''/'' # take n r)" by simp
  ultimately show ?thesis by blast
qed

lemma sem_Opt_Lit_caps: "sem (Opt (Lit cs)) m m' \<Longrightarrow> caps m' = caps m"
  by auto

lemma urlRe_sem:
  assumes "sem urlRe st0 st" and "caps st0 = Map.empty"
  shows "\<exists>p a. caps st 1 = Some p \<and> caps st 2 = Some a \<and> p \<noteq> [] \<and>
           (\<forall>c \<in> set p. word_char c) \<and> (\<forall>c \<in> set a. c \<noteq> CHR ''/'' \<and> c \<noteq> CHR ''?'') \<and>
           (caps st 3 = None \<or>
              (\<exists>q. q \<noteq> [] \<and> (\<forall>c \<in> set q. c \<noteq> CHR ''?'') \<and> caps st 3 = Some (CHR ''/'' # q))) \<and>
           (caps st 4 = None \<or>
              (\<exists>q. q \<noteq> [] \<and> (\<forall>c \<in> set q. dot_char c) \<and> caps st 4 = Some q))"
proof -
  from assms(1) obtain m0 m1 m2 m3 m4 m5 where
    s0: "sem Bol st0 m0" and
    s1: "sem (Group 1 (Plus word_char)) m0 m1" and
    s2: "sem (Lit ''://'') m1 m2" and
    s3: "sem (Group 2 (Star (\<lambda>c. c \<noteq> CHR ''/'' \<and> c \<noteq> CHR ''?''))) m2 m3" and
    s4: "sem (Opt (Group 3 (Seq (Lit ''/'') (Plus (\<lambda>c. c \<noteq> CHR ''?''))))) m3 m4" and
    s5: "sem (Opt (Lit ''?'')) m4 m5" and
    s6: "sem (Opt (Group 4 (Plus dot_char))) m5 st"
    unfolding urlRe_def sem.simps(6) by blast
  from s0 assms(2) have c0: "caps m0 = Map.empty" by simp
  from sem_Group_Plus [OF s1] c0 obtain p where
    p: "p \<noteq> []" "\<forall>c \<in> set p. word_char c" and c1: "caps m1 = [1 \<mapsto> p]"
    by auto
  from s2 c1 have c2: "caps m2 = [1 \<mapsto> p]" by auto
  from sem_Group_Star [OF s3] c2 obtain a where
    a: "\<forall>c \<in> set a. c \<noteq> CHR ''/'' \<and> c \<noteq> CHR ''?''" and c3: "caps m3 = [1 \<mapsto> p, 2 \<mapsto> a]"
    by auto
  from s4 have "m4 = m3 \<or> sem (Group 3 (Seq (Lit ''/'') (Plus (\<lambda>c. c \<noteq> CHR ''?'')))) m3 m4"
    by auto
  then have c4: "caps m4 = [1 \<mapsto> p, 2 \<mapsto> a] \<or>
      (\<exists>q. q \<noteq> [] \<and> (\<forall>c \<in> set q. c \<noteq> CHR ''?'') \<and> caps m4 = [1 \<mapsto> p, 2 \<mapsto> a, 3 \<mapsto> CHR ''/'' # q])"
  proof
    assume "m4 = m3"
    with c3 show ?thesis by simp
  next
    assume "sem (Group 3 (Seq (Lit ''/'') (Plus (\<lambda>c. c \<noteq> CHR ''?'')))) m3 m4"
    from sem_Group_path [OF this] c3 show ?thesis by auto
  qed
  from sem_Opt_Lit_caps [OF s5] have c5: "caps m5 = caps m4" .
  from s6 have "st = m5 \<or> sem (Group 4 (Plus dot_char)) m5 st" by auto
  then have c6: "caps st = caps m5 \<or>
      (\<exists>q. q \<noteq> [] \<and> (\<forall>c \<in> set q. dot_char c) \<and> caps st = (caps m5)(4 \<mapsto> q))"
  proof
    assume "st = m5"
    then show ?thesis by simp
  next
    assume "sem (Group 4 (Plus dot_char)) m5 st"
    from sem_Group_Plus [OF this] show ?thesis by auto
  qed
  from c4 c5 c6 p a show ?thesis
    by (elim disjE exE conjE) (simp_all)
qed

text \<open>Every match of \<open>urlRe\<close> fills groups 1 and 2, which \<open>parseUrl\<close> reads without a test.\<close>

lemma urlRe_groups:
  assumes "exec urlRe s = Some (i, st)"
  shows "caps st 1 \<noteq> None \<and> caps st 2 \<noteq> None"
proof -
  from exec_sem [OF assms] obtain n where
    "sem urlRe \<lparr>pos = n, rest = drop n s, caps = Map.empty\<rparr> st"
    by blast
  from urlRe_sem [OF this] show ?thesis by auto
qed

text \<open>
  The match of \<open>urlRe\<close> on a text put together from a protocol, an authority, a path
  of a slash and more, and a query or none.
\<close>

lemma urlRe_tail_empty:
  assumes "rest m = []"
  shows "matches (Seq (Opt (Lit ''?'')) (Opt (Group 4 (Plus dot_char)))) Some m = Some m"
  using assms by simp

lemma urlRe_tail_query:
  assumes "rest m = CHR ''?'' # qs" and "qs \<noteq> []" and "\<forall>c \<in> set qs. dot_char c"
  shows "matches (Seq (Opt (Lit ''?'')) (Opt (Group 4 (Plus dot_char)))) Some m =
           Some (m\<lparr>pos := Suc (pos m) + length qs, rest := [], caps := (caps m)(4 \<mapsto> qs)\<rparr>)"
proof -
  let ?m1 = "m\<lparr>pos := Suc (pos m), rest := qs\<rparr>"
  have "matches (Group 4 (Plus dot_char)) Some ?m1 =
      Some (?m1\<lparr>pos := pos ?m1 + length qs, rest := [], caps := (caps ?m1)(4 \<mapsto> qs)\<rparr>)"
    using assms by (intro matches_Group_Plus) auto
  with assms(1) show ?thesis by simp
qed

lemma urlRe_complete:
  assumes p: "p \<noteq> []" "\<forall>c \<in> set p. word_char c"
    and a: "\<forall>c \<in> set a. c \<noteq> CHR ''/'' \<and> c \<noteq> CHR ''?''"
    and q: "q \<noteq> []" "\<forall>c \<in> set q. c \<noteq> CHR ''?''"
    and t: "t = [] \<and> g4 = None \<or> (\<exists>qs. t = CHR ''?'' # qs \<and> qs \<noteq> [] \<and> (\<forall>c \<in> set qs. dot_char c) \<and> g4 = Some qs)"
  shows "\<exists>st. exec urlRe (p @ ''://'' @ a @ CHR ''/'' # q @ t) = Some (0, st) \<and>
           caps st 1 = Some p \<and> caps st 2 = Some a \<and> caps st 3 = Some (CHR ''/'' # q) \<and>
           caps st 4 = g4"
proof -
  define K4 where "K4 = matches (Opt (Lit ''?'')) (matches (Opt (Group 4 (Plus dot_char))) Some)"
  define K3 where "K3 = matches (Opt (Group 3 (Seq (Lit ''/'') (Plus (\<lambda>c. c \<noteq> CHR ''?''))))) K4"
  define K2 where "K2 = matches (Group 2 (Star (\<lambda>c. c \<noteq> CHR ''/'' \<and> c \<noteq> CHR ''?''))) K3"
  define K1 where "K1 = matches (Lit ''://'') K2"
  define m0 where "m0 = \<lparr>pos = 0, rest = p @ ''://'' @ a @ CHR ''/'' # q @ t, caps = Map.empty\<rparr>"
  define m1 where "m1 = \<lparr>pos = length p, rest = ''://'' @ a @ CHR ''/'' # q @ t, caps = [1 \<mapsto> p]\<rparr>"
  define m2 where "m2 = \<lparr>pos = length p + 3, rest = a @ CHR ''/'' # q @ t, caps = [1 \<mapsto> p]\<rparr>"
  define m3 where "m3 = \<lparr>pos = length p + 3 + length a, rest = CHR ''/'' # q @ t,
      caps = [1 \<mapsto> p, 2 \<mapsto> a]\<rparr>"
  define m4 where "m4 = \<lparr>pos = length p + 3 + length a + Suc (length q), rest = t,
      caps = [1 \<mapsto> p, 2 \<mapsto> a, 3 \<mapsto> CHR ''/'' # q]\<rparr>"
  have tl: "case t of [] \<Rightarrow> True | y # _ \<Rightarrow> \<not> y \<noteq> CHR ''?''"
    using t by auto
  from t obtain st where st: "K4 m4 = Some st" and c: "caps st = (caps m4)(4 := g4)"
  proof
    assume "t = [] \<and> g4 = None"
    then have "K4 m4 = Some m4" "caps m4 = (caps m4)(4 := g4)"
      using urlRe_tail_empty [of m4] by (auto simp: K4_def m4_def)
    then show thesis by (rule that)
  next
    assume "\<exists>qs. t = CHR ''?'' # qs \<and> qs \<noteq> [] \<and> (\<forall>c \<in> set qs. dot_char c) \<and> g4 = Some qs"
    then obtain qs where qs: "t = CHR ''?'' # qs" "qs \<noteq> []" "\<forall>c \<in> set qs. dot_char c" "g4 = Some qs"
      by blast
    then have "rest m4 = CHR ''?'' # qs" by (simp add: m4_def)
    from urlRe_tail_query [OF this qs(2,3)] qs(4) show thesis
      by (intro that) (auto simp: K4_def)
  qed
  have "matches (Group 3 (Seq (Lit ''/'') (Plus (\<lambda>c. c \<noteq> CHR ''?'')))) K4 m3 = Some st"
    using q tl st by (intro matches_Group_path [where xs = q and ys = t]) (auto simp: m3_def m4_def)
  then have 3: "K3 m3 = Some st" by (simp add: K3_def)
  have 2: "K2 m2 = Some st"
    unfolding K2_def using a 3
    by (intro matches_Group_Star [where xs = a and ys = "CHR ''/'' # q @ t"]) (auto simp: m2_def m3_def)
  then have 1: "K1 m1 = Some st" by (simp add: K1_def m1_def m2_def eval_nat_numeral)
  have "matches (Group 1 (Plus word_char)) K1 m0 = Some st"
    using p 1
    by (intro matches_Group_Plus [where xs = p and ys = "''://'' @ a @ CHR ''/'' # q @ t"])
      (auto simp: m0_def m1_def word_char_def)
  moreover have "matches urlRe Some m0 =
      (if pos m0 = 0 then matches (Group 1 (Plus word_char)) K1 m0 else None)"
    unfolding urlRe_def K1_def K2_def K3_def K4_def matches.simps(6) matches.simps(8)
    by (rule refl)
  moreover have "pos m0 = 0" by (simp add: m0_def)
  ultimately have "matches urlRe Some m0 = Some st" by simp
  then have "exec urlRe (p @ ''://'' @ a @ CHR ''/'' # q @ t) = Some (0, st)"
    unfolding m0_def by (rule exec_first)
  with c show ?thesis by (simp add: m4_def)
qed

text \<open>The same with a path that is the slash alone: it ends up in group 4.\<close>

lemma urlRe_complete_root:
  assumes p: "p \<noteq> []" "\<forall>c \<in> set p. word_char c"
    and a: "\<forall>c \<in> set a. c \<noteq> CHR ''/'' \<and> c \<noteq> CHR ''?''"
    and t: "t = [] \<or> (\<exists>qs. t = CHR ''?'' # qs \<and> (\<forall>c \<in> set qs. dot_char c))"
  shows "\<exists>st. exec urlRe (p @ ''://'' @ a @ CHR ''/'' # t) = Some (0, st) \<and>
           caps st 1 = Some p \<and> caps st 2 = Some a \<and> caps st 3 = None \<and>
           caps st 4 = Some (CHR ''/'' # t)"
proof -
  define K5 where "K5 = matches (Opt (Group 4 (Plus dot_char))) Some"
  define K4 where "K4 = matches (Opt (Lit ''?'')) K5"
  define K3 where "K3 = matches (Opt (Group 3 (Seq (Lit ''/'') (Plus (\<lambda>c. c \<noteq> CHR ''?''))))) K4"
  define K2 where "K2 = matches (Group 2 (Star (\<lambda>c. c \<noteq> CHR ''/'' \<and> c \<noteq> CHR ''?''))) K3"
  define K1 where "K1 = matches (Lit ''://'') K2"
  define m0 where "m0 = \<lparr>pos = 0, rest = p @ ''://'' @ a @ CHR ''/'' # t, caps = Map.empty\<rparr>"
  define m1 where "m1 = \<lparr>pos = length p, rest = ''://'' @ a @ CHR ''/'' # t, caps = [1 \<mapsto> p]\<rparr>"
  define m2 where "m2 = \<lparr>pos = length p + 3, rest = a @ CHR ''/'' # t, caps = [1 \<mapsto> p]\<rparr>"
  define m3 where "m3 = \<lparr>pos = length p + 3 + length a, rest = CHR ''/'' # t,
      caps = [1 \<mapsto> p, 2 \<mapsto> a]\<rparr>"
  define st where "st = m3\<lparr>pos := pos m3 + length (CHR ''/'' # t), rest := [],
      caps := (caps m3)(4 \<mapsto> CHR ''/'' # t)\<rparr>"
  have "dot_char CHR ''/''" "dot_char CHR ''?''" by (simp_all add: dot_char_def)
  with t have dots: "\<forall>c \<in> set (CHR ''/'' # t). dot_char c" by auto
  have "matches (Group 4 (Plus dot_char)) Some m3 = Some st"
    unfolding st_def using dots
    by (intro matches_Group_Plus [where xs = "CHR ''/'' # t" and ys = "[]"]) (auto simp: m3_def)
  then have 5: "K5 m3 = Some st" by (simp add: K5_def)
  then have 4: "K4 m3 = Some st" by (simp add: K4_def m3_def)
  have "matches (Group 3 (Seq (Lit ''/'') (Plus (\<lambda>c. c \<noteq> CHR ''?'')))) K4 m3 = None"
    using t by (auto simp: m3_def)
  with 4 have 3: "K3 m3 = Some st" by (simp add: K3_def)
  have 2: "K2 m2 = Some st"
    unfolding K2_def using a 3
    by (intro matches_Group_Star [where xs = a and ys = "CHR ''/'' # t"]) (auto simp: m2_def m3_def)
  then have 1: "K1 m1 = Some st" by (simp add: K1_def m1_def m2_def eval_nat_numeral)
  have "matches (Group 1 (Plus word_char)) K1 m0 = Some st"
    using p 1
    by (intro matches_Group_Plus [where xs = p and ys = "''://'' @ a @ CHR ''/'' # t"])
      (auto simp: m0_def m1_def word_char_def)
  moreover have "matches urlRe Some m0 =
      (if pos m0 = 0 then matches (Group 1 (Plus word_char)) K1 m0 else None)"
    unfolding urlRe_def K1_def K2_def K3_def K4_def K5_def matches.simps(6) matches.simps(8)
    by (rule refl)
  moreover have "pos m0 = 0" by (simp add: m0_def)
  ultimately have "matches urlRe Some m0 = Some st" by simp
  then have "exec urlRe (p @ ''://'' @ a @ CHR ''/'' # t) = Some (0, st)"
    unfolding m0_def by (rule exec_first)
  then show ?thesis by (simp add: st_def m3_def)
qed

text \<open>
  A URL with a query and no path, and what \<open>parseUrl\<close> returns for a URL with a query
  whose path is absent or more than the slash.
\<close>

lemma urlRe_complete_nopath:
  assumes p: "p \<noteq> []" "\<forall>c \<in> set p. word_char c"
    and a: "\<forall>c \<in> set a. c \<noteq> CHR ''/'' \<and> c \<noteq> CHR ''?''"
    and qs: "qs \<noteq> []" "\<forall>c \<in> set qs. dot_char c"
  shows "\<exists>st. exec urlRe (p @ ''://'' @ a @ CHR ''?'' # qs) = Some (0, st) \<and>
           caps st 1 = Some p \<and> caps st 2 = Some a \<and> caps st 3 = None \<and>
           caps st 4 = Some qs"
proof -
  define K4 where "K4 = matches (Opt (Lit ''?'')) (matches (Opt (Group 4 (Plus dot_char))) Some)"
  define K3 where "K3 = matches (Opt (Group 3 (Seq (Lit ''/'') (Plus (\<lambda>c. c \<noteq> CHR ''?''))))) K4"
  define K2 where "K2 = matches (Group 2 (Star (\<lambda>c. c \<noteq> CHR ''/'' \<and> c \<noteq> CHR ''?''))) K3"
  define K1 where "K1 = matches (Lit ''://'') K2"
  define m0 where "m0 = \<lparr>pos = 0, rest = p @ ''://'' @ a @ CHR ''?'' # qs, caps = Map.empty\<rparr>"
  define m1 where "m1 = \<lparr>pos = length p, rest = ''://'' @ a @ CHR ''?'' # qs, caps = [1 \<mapsto> p]\<rparr>"
  define m2 where "m2 = \<lparr>pos = length p + 3, rest = a @ CHR ''?'' # qs, caps = [1 \<mapsto> p]\<rparr>"
  define m3 where "m3 = \<lparr>pos = length p + 3 + length a, rest = CHR ''?'' # qs,
      caps = [1 \<mapsto> p, 2 \<mapsto> a]\<rparr>"
  define st where "st = m3\<lparr>pos := Suc (pos m3) + length qs, rest := [], caps := (caps m3)(4 \<mapsto> qs)\<rparr>"
  have "rest m3 = CHR ''?'' # qs" by (simp add: m3_def)
  from urlRe_tail_query [OF this qs] have 4: "K4 m3 = Some st"
    by (simp add: K4_def st_def)
  have "matches (Group 3 (Seq (Lit ''/'') (Plus (\<lambda>c. c \<noteq> CHR ''?'')))) K4 m3 = None"
    by (simp add: m3_def)
  with 4 have 3: "K3 m3 = Some st" by (simp add: K3_def)
  have 2: "K2 m2 = Some st"
    unfolding K2_def using a 3
    by (intro matches_Group_Star [where xs = a and ys = "CHR ''?'' # qs"]) (auto simp: m2_def m3_def)
  then have 1: "K1 m1 = Some st" by (simp add: K1_def m1_def m2_def eval_nat_numeral)
  have "matches (Group 1 (Plus word_char)) K1 m0 = Some st"
    using p 1
    by (intro matches_Group_Plus [where xs = p and ys = "''://'' @ a @ CHR ''?'' # qs"])
      (auto simp: m0_def m1_def word_char_def)
  moreover have "matches urlRe Some m0 =
      (if pos m0 = 0 then matches (Group 1 (Plus word_char)) K1 m0 else None)"
    unfolding urlRe_def K1_def K2_def K3_def K4_def matches.simps(6) matches.simps(8)
    by (rule refl)
  moreover have "pos m0 = 0" by (simp add: m0_def)
  ultimately have "matches urlRe Some m0 = Some st" by simp
  then have "exec urlRe (p @ ''://'' @ a @ CHR ''?'' # qs) = Some (0, st)"
    unfolding m0_def by (rule exec_first)
  then show ?thesis by (simp add: st_def m3_def)
qed

lemma parseUrl_with_query:
  assumes p: "p \<noteq> []" "\<forall>c \<in> set p. word_char c"
    and a: "\<forall>c \<in> set a. c \<noteq> CHR ''/'' \<and> c \<noteq> CHR ''?''"
    and pth: "pth = [] \<or> (\<exists>q. pth = CHR ''/'' # q \<and> q \<noteq> [] \<and> (\<forall>c \<in> set q. c \<noteq> CHR ''?''))"
    and ps: "join ''&'' ps \<noteq> []" "\<forall>x \<in> set ps. \<forall>c \<in> set x. dot_char c \<and> c \<noteq> CHR ''&''"
  shows "parseUrl (p @ ''://'' @ a @ pth @ CHR ''?'' # join ''&'' ps) =
           Inr \<lparr>protocol = p, authority = a, path = (if pth = [] then ''/'' else pth), params = ps\<rparr>"
proof -
  let ?qs = "join ''&'' ps"
  from ps(1) have ne: "ps \<noteq> []" by auto
  have dots: "\<forall>c \<in> set ?qs. dot_char c"
  proof
    fix c
    assume "c \<in> set ?qs"
    from set_join [OF this] have "c = CHR ''&'' \<or> (\<exists>x \<in> set ps. c \<in> set x)" by simp
    then show "dot_char c"
    proof
      assume "c = CHR ''&''"
      then show ?thesis by (simp add: dot_char_def)
    next
      assume "\<exists>x \<in> set ps. c \<in> set x"
      with ps(2) show ?thesis by blast
    qed
  qed
  have sp: "split (CHR ''&'') ?qs = ps"
  proof (rule split_join)
    show "ps \<noteq> []" by fact
    show "\<forall>x \<in> set ps. CHR ''&'' \<notin> set x" using ps(2) by blast
  qed
  from pth show ?thesis
  proof
    assume e: "pth = []"
    from urlRe_complete_nopath [OF p a ps(1) dots] obtain st where
      "exec urlRe (p @ ''://'' @ a @ CHR ''?'' # ?qs) = Some (0, st)"
      "caps st 1 = Some p" "caps st 2 = Some a" "caps st 3 = None" "caps st 4 = Some ?qs"
      by blast
    with e ps(1) sp show ?thesis by (simp add: parseUrl_def truthy_def)
  next
    assume "\<exists>q. pth = CHR ''/'' # q \<and> q \<noteq> [] \<and> (\<forall>c \<in> set q. c \<noteq> CHR ''?'')"
    then obtain q where q: "pth = CHR ''/'' # q" "q \<noteq> []" "\<forall>c \<in> set q. c \<noteq> CHR ''?''"
      by blast
    have t: "CHR ''?'' # ?qs = [] \<and> Some ?qs = None \<or>
        (\<exists>qs. CHR ''?'' # ?qs = CHR ''?'' # qs \<and> qs \<noteq> [] \<and> (\<forall>c \<in> set qs. dot_char c) \<and> Some ?qs = Some qs)"
      using ps(1) dots by blast
    from urlRe_complete [OF p a q(2,3) t] obtain st where
      "exec urlRe (p @ ''://'' @ a @ CHR ''/'' # q @ CHR ''?'' # ?qs) = Some (0, st)"
      "caps st 1 = Some p" "caps st 2 = Some a" "caps st 3 = Some (CHR ''/'' # q)" "caps st 4 = Some ?qs"
      by blast
    with q(1) ps(1) sp show ?thesis by (simp add: parseUrl_def truthy_def)
  qed
qed

subsection \<open>The image extension pattern\<close>


lemma endsWithImageExtension_append:
  assumes "e = ''.png'' \<or> e = ''.jpg''" and "\<forall>d \<in> set ds. digit_char d"
  shows "endsWithImageExtension (pre @ e @ ds)"
proof -
  have "dropWhile digit_char (rev ds @ rev e @ rev pre) = dropWhile digit_char (rev e @ rev pre)"
    by (rule dropWhile_append2) (use assms(2) in auto)
  also have "\<dots> = rev e @ rev pre"
    using assms(1) by (auto simp: digit_char_def)
  finally show ?thesis
    using assms(1) by (auto simp: endsWithImageExtension_def suffix_def)
qed


text \<open>
  \<open>endsWithImageExtension\<close> in the words of the pattern: one of the two extensions,
  then digits, then the end.
\<close>

lemma endsWithImageExtension_iff:
  "endsWithImageExtension p =
     (\<exists>pre e ds. p = pre @ e @ ds \<and> (e = ''.png'' \<or> e = ''.jpg'') \<and>
        (\<forall>d \<in> set ds. digit_char d))"
proof
  assume "endsWithImageExtension p"
  then obtain e where e: "e = ''.png'' \<or> e = ''.jpg''"
    and "suffix e (rev (dropWhile digit_char (rev p)))"
    by (auto simp: endsWithImageExtension_def Let_def)
  then obtain pre where pre: "rev (dropWhile digit_char (rev p)) = pre @ e"
    by (auto simp: suffix_def)
  have "p = rev (dropWhile digit_char (rev p)) @ rev (takeWhile digit_char (rev p))"
    by (metis rev_append rev_rev_ident takeWhile_dropWhile_id)
  with pre have "p = pre @ e @ rev (takeWhile digit_char (rev p))" by simp
  moreover have "\<forall>d \<in> set (rev (takeWhile digit_char (rev p))). digit_char d"
    by (auto dest: set_takeWhileD)
  ultimately show "\<exists>pre e ds. p = pre @ e @ ds \<and> (e = ''.png'' \<or> e = ''.jpg'') \<and>
        (\<forall>d \<in> set ds. digit_char d)"
    using e by blast
next
  assume "\<exists>pre e ds. p = pre @ e @ ds \<and> (e = ''.png'' \<or> e = ''.jpg'') \<and>
        (\<forall>d \<in> set ds. digit_char d)"
  then show "endsWithImageExtension p"
    by (auto intro: endsWithImageExtension_append)
qed

section \<open>Resolving a style locator\<close>

text \<open>
  Claim C1, as amended. With the API base \<^verbatim>\<open>https://api.mapbox.com\<close> and tokens
  required, \<open>normalizeStyleURL\<close> on \<^verbatim>\<open>mapbox://styles/foo/bar\<close> with the token
  \<^verbatim>\<open>pk.ABC\<close> returns \<^verbatim>\<open>https://api.mapbox.com/styles/v1/foo/bar?access_token=pk.ABC\<close>,
  whatever the other fields of the configuration are: \<^verbatim>\<open>styles\<close> is the authority of
  the locator, and only its path \<^verbatim>\<open>/foo/bar\<close> goes behind \<^verbatim>\<open>/styles/v1\<close>.
\<close>

theorem normalizeStyleURL_example:
  "normalizeStyleURL
     \<lparr>API_URL = ''https://api.mapbox.com'', EVENTS_URL = ev,
      REQUIRE_ACCESS_TOKEN = True, ACCESS_TOKEN = tok\<rparr>
     ''mapbox://styles/foo/bar'' (Some ''pk.ABC'')
   = Inr ''https://api.mapbox.com/styles/v1/foo/bar?access_token=pk.ABC''"
  by (simp add: normalizeStyleURL_def url_eval)

theorem normalizeStyleURL_example_witness:
  "normalizeStyleURL
     \<lparr>API_URL = ''https://api.mapbox.com'', EVENTS_URL = ''https://events.mapbox.com/events/v2'',
      REQUIRE_ACCESS_TOKEN = True, ACCESS_TOKEN = None\<rparr>
     ''mapbox://styles/foo/bar'' (Some ''pk.ABC'')
   = Inr ''https://api.mapbox.com/styles/v1/foo/bar?access_token=pk.ABC''"
  by (rule normalizeStyleURL_example)

text \<open>
  Claim C1 as the specification words it names a result with \<^verbatim>\<open>/styles/v1/styles/foo/bar\<close>;
  the function does not return that.
\<close>

theorem normalizeStyleURL_example_counterexample:
  "normalizeStyleURL
     \<lparr>API_URL = ''https://api.mapbox.com'', EVENTS_URL = ''https://events.mapbox.com/events/v2'',
      REQUIRE_ACCESS_TOKEN = True, ACCESS_TOKEN = None\<rparr>
     ''mapbox://styles/foo/bar'' (Some ''pk.ABC'')
   \<noteq> Inr ''https://api.mapbox.com/styles/v1/styles/foo/bar?access_token=pk.ABC''"
  by (simp add: normalizeStyleURL_def url_eval)

section \<open>The completion handler of the usage report\<close>

text \<open>The handler writes the record exactly under the condition of its \<^verbatim>\<open>if\<close>.\<close>

lemma onreadystatechange_cases:
  "onreadystatechange env aid readyState status t store =
     (if status = 204 \<or> (localStorageAvailable env \<and> readyState = 4 \<and> status = 200)
      then store(''mapbox.userTurnstileData'' \<mapsto> Json \<lparr>anonId = aid, lastSuccess = Some t\<rparr>)
      else store)"
  by (auto simp: onreadystatechange_def)

text \<open>
  Claim C2 says that the record is written only when the request is finished
  (\<open>readyState\<close> 4) with status 200 or 204 and storage is available. The handler
  evaluated on an empty store when the headers have arrived (\<open>readyState\<close> 2), with
  status 204: it writes the record, with or without storage.
\<close>

theorem onreadystatechange_204_before_done:
  "onreadystatechange env aid 2 204 t Map.empty ''mapbox.userTurnstileData''
     = Some (Json \<lparr>anonId = aid, lastSuccess = Some t\<rparr>)"
  by (simp add: onreadystatechange_def)

section \<open>Parsing what was formatted\<close>

text \<open>
  Claim C4 says that parsing a formatted \<open>UrlObject\<close> gives it back. The two functions
  evaluated on \<^verbatim>\<open>http://example.com\<close>: the parser fills in the path \<^verbatim>\<open>/\<close>, the
  formatter writes \<^verbatim>\<open>http://example.com/\<close>, and the parser reads the \<^verbatim>\<open>/\<close> of that
  as a parameter, since group 3 of the pattern wants a character after the slash.
\<close>

theorem parseUrl_formatUrl_root:
  "parseUrl ''http://example.com'' =
     Inr \<lparr>protocol = ''http'', authority = ''example.com'', path = ''/'', params = []\<rparr> \<and>
   formatUrl \<lparr>protocol = ''http'', authority = ''example.com'', path = ''/'', params = []\<rparr> =
     ''http://example.com/'' \<and>
   parseUrl ''http://example.com/'' =
     Inr \<lparr>protocol = ''http'', authority = ''example.com'', path = ''/'', params = [''/'']\<rparr>"
  by (simp add: url_eval)

text \<open>
  That is the only way the two functions fail to round-trip. For a parsed URL whose path
  is more than the slash, parsing the formatted URL gives it back; for every parsed URL
  whose path is the slash, the slash and what follows it come back as parameters.
\<close>

lemma roundtrip_proper_path:
  assumes "parseUrl s = Inr u" and "path u \<noteq> ''/''"
  shows "parseUrl (formatUrl u) = Inr u"
proof -
  from assms(1) obtain i st where ex: "exec urlRe s = Some (i, st)"
    and u: "u = \<lparr>protocol = the (caps st 1), authority = the (caps st 2),
              path = (if truthy (caps st 3) then the (caps st 3) else ''/''),
              params = (if truthy (caps st 4) then split (CHR ''&'') (the (caps st 4)) else [])\<rparr>"
    by (auto simp: parseUrl_def split: option.splits)
  from exec_sem [OF ex] obtain n where
    "sem urlRe \<lparr>pos = n, rest = drop n s, caps = Map.empty\<rparr> st"
    by blast
  from urlRe_sem [OF this] obtain p a where
    c1: "caps st 1 = Some p" and c2: "caps st 2 = Some a" and
    p: "p \<noteq> []" "\<forall>c \<in> set p. word_char c" and
    a: "\<forall>c \<in> set a. c \<noteq> CHR ''/'' \<and> c \<noteq> CHR ''?''" and
    c3: "caps st 3 = None \<or>
      (\<exists>q. q \<noteq> [] \<and> (\<forall>c \<in> set q. c \<noteq> CHR ''?'') \<and> caps st 3 = Some (CHR ''/'' # q))" and
    c4: "caps st 4 = None \<or> (\<exists>q. q \<noteq> [] \<and> (\<forall>c \<in> set q. dot_char c) \<and> caps st 4 = Some q)"
    by auto
  from c3 assms(2) u obtain q where
    q: "q \<noteq> []" "\<forall>c \<in> set q. c \<noteq> CHR ''?''" and c3': "caps st 3 = Some (CHR ''/'' # q)"
    by (auto simp: truthy_def)
  define t where "t = (if length (params u) \<noteq> 0 then ''?'' @ join ''&'' (params u) else [])"
  have f: "formatUrl u = p @ ''://'' @ a @ CHR ''/'' # q @ t"
    using u c1 c2 c3' by (simp add: formatUrl_def t_def truthy_def)
  from c4 have t: "t = [] \<and> caps st 4 = None \<or>
      (\<exists>qs. t = CHR ''?'' # qs \<and> qs \<noteq> [] \<and> (\<forall>c \<in> set qs. dot_char c) \<and> caps st 4 = Some qs)"
  proof
    assume "caps st 4 = None"
    with u show ?thesis by (simp add: t_def truthy_def)
  next
    assume "\<exists>q. q \<noteq> [] \<and> (\<forall>c \<in> set q. dot_char c) \<and> caps st 4 = Some q"
    then obtain qs where qs: "qs \<noteq> []" "\<forall>c \<in> set qs. dot_char c" "caps st 4 = Some qs"
      by blast
    with u have "params u = split (CHR ''&'') qs" by (simp add: truthy_def)
    then have "t = CHR ''?'' # qs"
      using split_nonempty [of "CHR ''&''" qs] join_split [of "CHR ''&''" qs] by (simp add: t_def)
    with qs show ?thesis by blast
  qed
  from urlRe_complete [OF p a q t] obtain st' where
    "exec urlRe (formatUrl u) = Some (0, st')" "caps st' 1 = Some p" "caps st' 2 = Some a"
    "caps st' 3 = Some (CHR ''/'' # q)" "caps st' 4 = caps st 4"
    unfolding f by blast
  with u c1 c2 c3' show ?thesis by (simp add: parseUrl_def)
qed

lemma roundtrip_root_path_fails:
  assumes "parseUrl s = Inr u" and "path u = ''/''"
  shows "parseUrl (formatUrl u) =
           Inr (u\<lparr>params := split (CHR ''&'')
                  (CHR ''/'' # (if params u = [] then [] else ''?'' @ join ''&'' (params u)))\<rparr>) \<and>
         parseUrl (formatUrl u) \<noteq> Inr u"
proof -
  from assms(1) obtain i st where ex: "exec urlRe s = Some (i, st)"
    and u: "u = \<lparr>protocol = the (caps st 1), authority = the (caps st 2),
              path = (if truthy (caps st 3) then the (caps st 3) else ''/''),
              params = (if truthy (caps st 4) then split (CHR ''&'') (the (caps st 4)) else [])\<rparr>"
    by (auto simp: parseUrl_def split: option.splits)
  from exec_sem [OF ex] obtain n where
    "sem urlRe \<lparr>pos = n, rest = drop n s, caps = Map.empty\<rparr> st"
    by blast
  from urlRe_sem [OF this] obtain p a where
    c1: "caps st 1 = Some p" and c2: "caps st 2 = Some a" and
    p: "p \<noteq> []" "\<forall>c \<in> set p. word_char c" and
    a: "\<forall>c \<in> set a. c \<noteq> CHR ''/'' \<and> c \<noteq> CHR ''?''" and
    c4: "caps st 4 = None \<or> (\<exists>q. q \<noteq> [] \<and> (\<forall>c \<in> set q. dot_char c) \<and> caps st 4 = Some q)"
    by auto
  define t where "t = (if length (params u) \<noteq> 0 then ''?'' @ join ''&'' (params u) else [])"
  have f: "formatUrl u = p @ ''://'' @ a @ CHR ''/'' # t"
    using u c1 c2 assms(2) by (simp add: formatUrl_def t_def)
  from c4 have t: "(t = [] \<and> params u = []) \<or>
      (\<exists>qs. t = CHR ''?'' # qs \<and> (\<forall>c \<in> set qs. dot_char c) \<and> params u = split (CHR ''&'') qs)"
  proof
    assume "caps st 4 = None"
    with u show ?thesis by (simp add: t_def truthy_def)
  next
    assume "\<exists>q. q \<noteq> [] \<and> (\<forall>c \<in> set q. dot_char c) \<and> caps st 4 = Some q"
    then obtain qs where qs: "qs \<noteq> []" "\<forall>c \<in> set qs. dot_char c" "caps st 4 = Some qs"
      by blast
    with u have ps: "params u = split (CHR ''&'') qs" by (simp add: truthy_def)
    then have "t = CHR ''?'' # qs"
      using split_nonempty [of "CHR ''&''" qs] join_split [of "CHR ''&''" qs] by (simp add: t_def)
    with qs ps show ?thesis by blast
  qed
  then have t': "t = [] \<or> (\<exists>qs. t = CHR ''?'' # qs \<and> (\<forall>c \<in> set qs. dot_char c))"
    by blast
  from urlRe_complete_root [OF p a t'] obtain st' where
    "exec urlRe (formatUrl u) = Some (0, st')" "caps st' 1 = Some p" "caps st' 2 = Some a"
    "caps st' 3 = None" "caps st' 4 = Some (CHR ''/'' # t)"
    unfolding f by blast
  then have r0: "parseUrl (formatUrl u) =
      Inr \<lparr>protocol = p, authority = a, path = ''/'', params = split (CHR ''&'') (CHR ''/'' # t)\<rparr>"
    by (simp add: parseUrl_def truthy_def)
  have pu: "protocol u = p" "authority u = a"
    using u c1 c2 by simp_all
  have upd: "u\<lparr>params := X\<rparr> = \<lparr>protocol = p, authority = a, path = ''/'', params = X\<rparr>" for X
    using pu assms(2) by (cases u) simp
  from r0 have r: "parseUrl (formatUrl u) = Inr (u\<lparr>params := split (CHR ''&'') (CHR ''/'' # t)\<rparr>)"
    by (simp only: upd)
  have "t = (if params u = [] then [] else ''?'' @ join ''&'' (params u))"
    by (simp add: t_def)
  with r have r': "parseUrl (formatUrl u) =
           Inr (u\<lparr>params := split (CHR ''&'')
                  (CHR ''/'' # (if params u = [] then [] else ''?'' @ join ''&'' (params u)))\<rparr>)"
    by (simp only:)
  have ne: "split (CHR ''&'') (CHR ''/'' # t) \<noteq> params u"
  proof
    assume eq: "split (CHR ''&'') (CHR ''/'' # t) = params u"
    from t show False
    proof
      assume "t = [] \<and> params u = []"
      with eq split_nonempty [of "CHR ''&''" "CHR ''/'' # t"] show False by simp
    next
      assume "\<exists>qs. t = CHR ''?'' # qs \<and> (\<forall>c \<in> set qs. dot_char c) \<and> params u = split (CHR ''&'') qs"
      then obtain qs where "t = CHR ''?'' # qs" "params u = split (CHR ''&'') qs" by blast
      with eq have "join ''&'' (split (CHR ''&'') (CHR ''/'' # CHR ''?'' # qs)) = join ''&'' (split (CHR ''&'') qs)"
        by (simp only:)
      then have "CHR ''/'' # CHR ''?'' # qs = qs"
        by (simp only: join_split)
      then have "length (CHR ''/'' # CHR ''?'' # qs) = length qs" by simp
      then show False by simp
    qed
  qed
  have "parseUrl (formatUrl u) \<noteq> Inr u"
  proof
    assume "parseUrl (formatUrl u) = Inr u"
    with r have "u\<lparr>params := split (CHR ''&'') (CHR ''/'' # t)\<rparr> = u" by (simp only: sum.inject)
    then have "params (u\<lparr>params := split (CHR ''&'') (CHR ''/'' # t)\<rparr>) = params u"
      by (rule arg_cong)
    with ne show False by simp
  qed
  with r' show ?thesis by blast
qed

section \<open>Secret tokens\<close>

text \<open>
  Claim C5, as amended. Tokens are required, the locator starts with \<^verbatim>\<open>mapbox:\<close> and
  matches the URL pattern, the API base URL matches it too, and the effective token
  \<^verbatim>\<open>accessToken || config.ACCESS_TOKEN\<close> starts with \<^verbatim>\<open>s\<close>: then resolving the locator
  as a style, as glyphs, as a source or as a sprite fails with \<open>SecretTokenError\<close>.
\<close>

theorem secret_token_rejected:
  assumes "REQUIRE_ACCESS_TOKEN cfg" and "prefix ''mapbox:'' loc"
    and "parseUrl loc = Inr u" and "parseUrl (API_URL cfg) = Inr api"
    and "or_else tok (ACCESS_TOKEN cfg) = Some (CHR ''s'' # cs)"
  shows "normalizeStyleURL cfg loc tok = Inl SecretTokenError \<and>
         normalizeGlyphsURL cfg loc tok = Inl SecretTokenError \<and>
         normalizeSourceURL cfg loc tok = Inl SecretTokenError \<and>
         normalizeSpriteURL cfg loc format extension tok = Inl SecretTokenError"
  using assms
  by (simp add: normalizeStyleURL_def normalizeGlyphsURL_def normalizeSourceURL_def
      normalizeSpriteURL_def isMapboxURL_prefix makeAPIURL_def truthy_def Let_def)

theorem secret_token_rejected_witness:
  "normalizeStyleURL
     \<lparr>API_URL = ''https://api.mapbox.com'', EVENTS_URL = ''https://events.mapbox.com/events/v2'',
      REQUIRE_ACCESS_TOKEN = True, ACCESS_TOKEN = Some ''sk.default''\<rparr>
     ''mapbox://styles/user/style'' None = Inl SecretTokenError \<and>
   normalizeGlyphsURL
     \<lparr>API_URL = ''https://api.mapbox.com'', EVENTS_URL = ''https://events.mapbox.com/events/v2'',
      REQUIRE_ACCESS_TOKEN = True, ACCESS_TOKEN = Some ''sk.default''\<rparr>
     ''mapbox://styles/user/style'' None = Inl SecretTokenError \<and>
   normalizeSourceURL
     \<lparr>API_URL = ''https://api.mapbox.com'', EVENTS_URL = ''https://events.mapbox.com/events/v2'',
      REQUIRE_ACCESS_TOKEN = True, ACCESS_TOKEN = Some ''sk.default''\<rparr>
     ''mapbox://styles/user/style'' None = Inl SecretTokenError \<and>
   normalizeSpriteURL
     \<lparr>API_URL = ''https://api.mapbox.com'', EVENTS_URL = ''https://events.mapbox.com/events/v2'',
      REQUIRE_ACCESS_TOKEN = True, ACCESS_TOKEN = Some ''sk.default''\<rparr>
     ''mapbox://styles/user/style'' ''@2x'' ''.png'' None = Inl SecretTokenError"
proof -
  let ?cfg = "\<lparr>API_URL = ''https://api.mapbox.com'',
      EVENTS_URL = ''https://events.mapbox.com/events/v2'',
      REQUIRE_ACCESS_TOKEN = True, ACCESS_TOKEN = Some ''sk.default''\<rparr>"
  have req: "REQUIRE_ACCESS_TOKEN ?cfg" by simp
  have pre: "prefix ''mapbox:'' ''mapbox://styles/user/style''" by simp
  have loc: "parseUrl ''mapbox://styles/user/style'' =
      Inr \<lparr>protocol = ''mapbox'', authority = ''styles'', path = ''/user/style'', params = []\<rparr>"
    by (simp add: url_eval)
  have api: "parseUrl (API_URL ?cfg) =
      Inr \<lparr>protocol = ''https'', authority = ''api.mapbox.com'', path = ''/'', params = []\<rparr>"
    by (simp add: url_eval)
  have tok: "or_else None (ACCESS_TOKEN ?cfg) = Some (CHR ''s'' # ''k.default'')"
    by (simp add: or_else_def truthy_def)
  show ?thesis
    by (rule secret_token_rejected [OF req pre loc api tok])
qed

text \<open>
  Claim C5 as the specification words it covers every locator that starts with
  \<^verbatim>\<open>mapbox:\<close>. One that does not match the URL pattern fails in \<open>parseUrl\<close>, before the
  token is looked at.
\<close>

theorem secret_token_rejected_counterexample:
  "isMapboxURL ''mapbox:styles/user/style'' \<and>
   normalizeStyleURL
     \<lparr>API_URL = ''https://api.mapbox.com'', EVENTS_URL = ''https://events.mapbox.com/events/v2'',
      REQUIRE_ACCESS_TOKEN = True, ACCESS_TOKEN = None\<rparr>
     ''mapbox:styles/user/style'' (Some ''sk.secret'') = Inl MalformedURLError"
  by (simp add: normalizeStyleURL_def url_eval)

section \<open>Resolving a tile locator\<close>

text \<open>
  Claim C6, as amended. The source locator starts with \<^verbatim>\<open>mapbox:\<close>, and the tile URL
  is a protocol, \<^verbatim>\<open>://\<close>, an authority, a path that is absent or a slash followed by at
  least one character, \<^verbatim>\<open>?\<close>, and parameters joined by \<^verbatim>\<open>&\<close> (without line
  terminators). Then the result is the same URL with the image extension of its path
  rewritten and with every parameter that starts with \<^verbatim>\<open>access_token=tk.\<close> replaced, at
  its position, by \<^verbatim>\<open>access_token=\<close> and the configured default token (nothing after
  the \<^verbatim>\<open>=\<close> when none is configured); every other parameter stays as it is. A tile
  URL whose path is the slash alone is left out: there the defect of \<open>urlRe\<close> shown under
  claim C4 decides.
\<close>

theorem normalizeTileURL_temp_token:
  assumes src: "prefix ''mapbox:'' src"
    and p: "p \<noteq> []" "\<forall>c \<in> set p. word_char c"
    and a: "\<forall>c \<in> set a. c \<noteq> CHR ''/'' \<and> c \<noteq> CHR ''?''"
    and pth: "pth = [] \<or> (\<exists>q. pth = CHR ''/'' # q \<and> q \<noteq> [] \<and> (\<forall>c \<in> set q. c \<noteq> CHR ''?''))"
    and ps: "join ''&'' ps \<noteq> []" "\<forall>x \<in> set ps. \<forall>c \<in> set x. dot_char c \<and> c \<noteq> CHR ''&''"
  shows "normalizeTileURL cfg br (p @ ''://'' @ a @ pth @ CHR ''?'' # join ''&'' ps) (Some src) tileSize =
           Inr (p @ ''://'' @ a @
                replace (if pth = [] then ''/'' else pth) imageExtensionRe
                  ((if 2 \<le> devicePixelRatio br \<or> tileSize = Some 512 then ''@2x'' else '''') @
                   (if supportsWebp br then ''.webp'' else ''$1'')) @
                CHR ''?'' # join ''&''
                  (map (\<lambda>x. if prefix ''access_token=tk.'' x
                            then ''access_token='' @
                                 (case ACCESS_TOKEN cfg of None \<Rightarrow> '''' | Some t \<Rightarrow> t)
                            else x) ps))"
proof -
  from ps(1) have "ps \<noteq> []" by auto
  moreover from src have "src \<noteq> []" by auto
  ultimately show ?thesis
    using src parseUrl_with_query [OF p a pth ps]
    by (simp add: normalizeTileURL_def isMapboxURL_prefix truthy_def replaceTempAccessToken_map
        Let_def formatUrl_def)
qed

theorem normalizeTileURL_temp_token_witness:
  "normalizeTileURL
     \<lparr>API_URL = ''https://api.mapbox.com'', EVENTS_URL = ''https://events.mapbox.com/events/v2'',
      REQUIRE_ACCESS_TOKEN = True, ACCESS_TOKEN = Some ''pk.default''\<rparr>
     \<lparr>devicePixelRatio = 1, supportsWebp = False\<rparr>
     ''https://a.tiles.mapbox.com/v4/x/1/2/3.png?a=1&access_token=tk.session123&b=2''
     (Some ''mapbox://x'') None
   = Inr ''https://a.tiles.mapbox.com/v4/x/1/2/3.png?a=1&access_token=pk.default&b=2''"
proof -
  let ?cfg = "\<lparr>API_URL = ''https://api.mapbox.com'',
      EVENTS_URL = ''https://events.mapbox.com/events/v2'',
      REQUIRE_ACCESS_TOKEN = True, ACCESS_TOKEN = Some ''pk.default''\<rparr>"
  let ?br = "\<lparr>devicePixelRatio = 1, supportsWebp = False\<rparr>"
  let ?ps = "[''a=1'', ''access_token=tk.session123'', ''b=2'']"
  have src: "prefix ''mapbox:'' ''mapbox://x''" by simp
  have p: "''https'' \<noteq> []" "\<forall>c \<in> set ''https''. word_char c"
    by (simp_all add: word_char_def)
  have a: "\<forall>c \<in> set ''a.tiles.mapbox.com''. c \<noteq> CHR ''/'' \<and> c \<noteq> CHR ''?''"
    by simp
  have pth: "''/v4/x/1/2/3.png'' = [] \<or>
      (\<exists>q. ''/v4/x/1/2/3.png'' = CHR ''/'' # q \<and> q \<noteq> [] \<and> (\<forall>c \<in> set q. c \<noteq> CHR ''?''))"
    by simp
  have ps: "join ''&'' ?ps \<noteq> []" "\<forall>x \<in> set ?ps. \<forall>c \<in> set x. dot_char c \<and> c \<noteq> CHR ''&''"
    by (simp_all add: dot_char_def)
  from normalizeTileURL_temp_token
    [where cfg = ?cfg and br = ?br and tileSize = None, OF src p a pth ps]
  show ?thesis
    by (simp add: replace_def exec_def imageExtensionRe_def digit_char_def digit_val_def)
qed

text \<open>
  Claim C6 as the specification words it speaks of every call. With a source locator
  that does not start with \<^verbatim>\<open>mapbox:\<close> the tile URL comes back with its temporary
  token.
\<close>

theorem normalizeTileURL_temp_token_counterexample:
  "normalizeTileURL
     \<lparr>API_URL = ''https://api.mapbox.com'', EVENTS_URL = ''https://events.mapbox.com/events/v2'',
      REQUIRE_ACCESS_TOKEN = True, ACCESS_TOKEN = Some ''pk.default''\<rparr>
     \<lparr>devicePixelRatio = 1, supportsWebp = False\<rparr>
     ''https://example.com/1/2/3.png?access_token=tk.session123''
     (Some ''https://example.com/tiles.json'') None
   = Inr ''https://example.com/1/2/3.png?access_token=tk.session123''"
  by (simp add: normalizeTileURL_def url_eval)

text \<open>
  Why the slash alone is left out: \<open>parseUrl\<close> reads the slash and the query of such a
  tile URL as one parameter (the defect under claim C4), which does not start with
  \<^verbatim>\<open>access_token=tk.\<close>, and the token stays.
\<close>

lemma normalizeTileURL_bare_slash:
  "normalizeTileURL
     \<lparr>API_URL = ''https://api.mapbox.com'', EVENTS_URL = ''https://events.mapbox.com/events/v2'',
      REQUIRE_ACCESS_TOKEN = True, ACCESS_TOKEN = Some ''pk.default''\<rparr>
     \<lparr>devicePixelRatio = 1, supportsWebp = False\<rparr>
     ''https://a.tiles.mapbox.com/?access_token=tk.session123''
     (Some ''mapbox://x'') None
   = Inr ''https://a.tiles.mapbox.com/?/?access_token=tk.session123''"
  by (simp add: normalizeTileURL_def url_eval replace_def imageExtensionRe_def)

text \<open>
  Claim C7. Without WebP support, \<open>normalizeTileURL\<close> on the tile
  \<^verbatim>\<open>mapbox://tiles/1/2/3.png\<close> of the source \<^verbatim>\<open>mapbox://tileset\<close> with tile size 512
  returns \<^verbatim>\<open>mapbox://tiles/1/2/3@2x.png\<close>, whose path \<^verbatim>\<open>/1/2/3@2x.png\<close> ends in
  \<^verbatim>\<open>@2x.png\<close>, for every device pixel ratio and every configuration.
\<close>

theorem normalizeTileURL_512:
  "normalizeTileURL cfg \<lparr>devicePixelRatio = r, supportsWebp = False\<rparr>
     ''mapbox://tiles/1/2/3.png'' (Some ''mapbox://tileset'') (Some 512)
   = Inr ''mapbox://tiles/1/2/3@2x.png''"
  by (simp add: normalizeTileURL_def url_eval imageExtensionRe_def replace_def digit_val_def)

theorem normalizeTileURL_512_witness:
  "normalizeTileURL
     \<lparr>API_URL = ''https://api.mapbox.com'', EVENTS_URL = ''https://events.mapbox.com/events/v2'',
      REQUIRE_ACCESS_TOKEN = True, ACCESS_TOKEN = Some ''pk.default''\<rparr>
     \<lparr>devicePixelRatio = 1, supportsWebp = False\<rparr>
     ''mapbox://tiles/1/2/3.png'' (Some ''mapbox://tileset'') (Some 512)
   = Inr ''mapbox://tiles/1/2/3@2x.png''"
  by (rule normalizeTileURL_512)

text \<open>
  Claim C8. When the source locator is absent, or does not start with \<^verbatim>\<open>mapbox:\<close>,
  \<open>normalizeTileURL\<close> returns the tile URL as it is.
\<close>

theorem normalizeTileURL_identity:
  assumes "case sourceURL of None \<Rightarrow> True | Some s \<Rightarrow> \<not> prefix ''mapbox:'' s"
  shows "normalizeTileURL cfg br tileURL sourceURL tileSize = Inr tileURL"
  using assms
  by (auto simp: normalizeTileURL_def isMapboxURL_prefix truthy_def split: option.splits)

theorem normalizeTileURL_identity_witness:
  "normalizeTileURL
     \<lparr>API_URL = ''https://api.mapbox.com'', EVENTS_URL = ''https://events.mapbox.com/events/v2'',
      REQUIRE_ACCESS_TOKEN = True, ACCESS_TOKEN = Some ''pk.default''\<rparr>
     \<lparr>devicePixelRatio = 2, supportsWebp = True\<rparr>
     ''not a url.png'' (Some ''https://example.com/tiles.json'') (Some 512)
   = Inr ''not a url.png''"
proof -
  have "case Some ''https://example.com/tiles.json'' of
          None \<Rightarrow> True | Some s \<Rightarrow> \<not> prefix ''mapbox:'' s"
    by simp
  then show ?thesis by (rule normalizeTileURL_identity)
qed



section \<open>Locators that are not URLs\<close>

text \<open>
  Claim C9. A locator that does not start with \<^verbatim>\<open>mapbox:\<close> and that the URL pattern
  does not match is returned as it is by \<open>normalizeStyleURL\<close>, \<open>normalizeGlyphsURL\<close>
  and \<open>normalizeSourceURL\<close>, while \<open>normalizeSpriteURL\<close>, which parses first, fails
  on it with \<open>MalformedURLError\<close>.
\<close>

theorem malformed_locator_asymmetry:
  assumes "\<not> prefix ''mapbox:'' loc" and "exec urlRe loc = None"
  shows "normalizeStyleURL cfg loc tok = Inr loc \<and>
         normalizeGlyphsURL cfg loc tok = Inr loc \<and>
         normalizeSourceURL cfg loc tok = Inr loc \<and>
         normalizeSpriteURL cfg loc format extension tok = Inl MalformedURLError"
  using assms
  by (simp add: normalizeStyleURL_def normalizeGlyphsURL_def normalizeSourceURL_def
      normalizeSpriteURL_def isMapboxURL_prefix parseUrl_def)

theorem malformed_locator_asymmetry_witness:
  "normalizeStyleURL
     \<lparr>API_URL = ''https://api.mapbox.com'', EVENTS_URL = ''https://events.mapbox.com/events/v2'',
      REQUIRE_ACCESS_TOKEN = True, ACCESS_TOKEN = Some ''pk.default''\<rparr>
     ''/sprites/bright'' None = Inr ''/sprites/bright'' \<and>
   normalizeGlyphsURL
     \<lparr>API_URL = ''https://api.mapbox.com'', EVENTS_URL = ''https://events.mapbox.com/events/v2'',
      REQUIRE_ACCESS_TOKEN = True, ACCESS_TOKEN = Some ''pk.default''\<rparr>
     ''/sprites/bright'' None = Inr ''/sprites/bright'' \<and>
   normalizeSourceURL
     \<lparr>API_URL = ''https://api.mapbox.com'', EVENTS_URL = ''https://events.mapbox.com/events/v2'',
      REQUIRE_ACCESS_TOKEN = True, ACCESS_TOKEN = Some ''pk.default''\<rparr>
     ''/sprites/bright'' None = Inr ''/sprites/bright'' \<and>
   normalizeSpriteURL
     \<lparr>API_URL = ''https://api.mapbox.com'', EVENTS_URL = ''https://events.mapbox.com/events/v2'',
      REQUIRE_ACCESS_TOKEN = True, ACCESS_TOKEN = Some ''pk.default''\<rparr>
     ''/sprites/bright'' ''@2x'' ''.png'' None = Inl MalformedURLError"
proof -
  have pre: "\<not> prefix ''mapbox:'' ''/sprites/bright''" by simp
  have no: "exec urlRe ''/sprites/bright'' = None"
    by (simp add: exec_def urlRe_def word_char_def)
  show ?thesis
    by (rule malformed_locator_asymmetry [OF pre no])
qed

section \<open>The gate of the usage report\<close>

text \<open>
  When the call has read a last success \<open>t\<close> from storage (a time value other than 0,
  which \<^verbatim>\<open>if (lastUpdateTime)\<close> takes for none), the test of lines 147 to 155 does what
  its comment says: the call returns without sending exactly when \<open>t\<close> and now fall on
  the same day of the month and the elapsed time in days is at least 0 and less than 1.
\<close>

lemma postTurnstileEvent_gate_when_read:
  assumes "truthy (ACCESS_TOKEN cfg)"
    and "retrieve env store = Inr (cached, Some t)"
    and "t \<noteq> 0" and "\<bar>t\<bar> \<le> 8640000000000000"
  shows "(postTurnstileEvent cfg env store = Returned) =
           (getDate env t = getDate env (now env) \<and>
            0 \<le> (of_int (now env - t) :: rat) / 86400000 \<and>
            (of_int (now env - t) :: rat) / 86400000 < 1)"
  using assms
  by (auto simp: postTurnstileEvent_def recordedToday_def newDate_def Let_def or_else_def
      split: sum.splits)

text \<open>
  But the record is read only when \<^verbatim>\<open>storageAvailable('localSotorage')\<close> answers true.
  When it answers false, a call with an access token never returns early, whatever the
  store holds.
\<close>

lemma postTurnstileEvent_storage_unavailable:
  assumes "truthy (ACCESS_TOKEN cfg)" and "\<not> localStorageAvailable env"
  shows "postTurnstileEvent cfg env store \<noteq> Returned"
  using assms
  by (simp add: postTurnstileEvent_def retrieve_def recordedToday_def Let_def split: sum.splits)

text \<open>
  Claim C3 says that a call made while a last success of the same day is stored returns
  without sending. Line 128 asks \<^verbatim>\<open>storageAvailable\<close> for the key \<^verbatim>\<open>localSotorage\<close>,
  while lines 134 and 169 use \<^verbatim>\<open>window.localStorage\<close>: in a window that has
  \<^verbatim>\<open>localStorage\<close> and nothing under the misspelt name the answer is false. The call
  evaluated there, with an access token configured and a last success stored one hour
  before now, on the same day: it does not read the record and sends the request.
\<close>

theorem postTurnstileEvent_same_day_sends:
  "postTurnstileEvent
     \<lparr>API_URL = ''https://api.mapbox.com'', EVENTS_URL = ''https://events.mapbox.com/events/v2'',
      REQUIRE_ACCESS_TOKEN = True, ACCESS_TOKEN = Some ''pk.default''\<rparr>
     \<lparr>localStorageAvailable = False, validateUuid = (\<lambda>v. v \<noteq> None),
      uuid = ''00000000-0000-4000-8000-000000000000'', now = 1700003600000,
      getDate = (\<lambda>v. v div 86400000 mod 28 + 1),
      toISOString = (\<lambda>v. ''2023-11-14T23:13:20.000Z''), version = ''0.50.0''\<rparr>
     [''mapbox.userTurnstileData'' \<mapsto>
        Json \<lparr>anonId = Some ''11111111-1111-4111-8111-111111111111'',
              lastSuccess = Some 1700000000000\<rparr>]
   = Sent \<lparr>xhrMethod = ''POST'',
           xhrUrl = ''https://events.mapbox.com/events/v2?access_token=pk.default'',
           xhrAsync = True,
           xhrHeaders = [(''Content-Type'', ''text/plain'')],
           xhrBody = [\<lparr>event = ''appUserTurnstile'', created = ''2023-11-14T23:13:20.000Z'',
                      sdkIdentifier = ''mapbox-gl-js'', sdkVersion = ''0.50.0'',
                      enabled_telemetry = False,
                      userId = Some ''00000000-0000-4000-8000-000000000000''\<rparr>]\<rparr>"
  by (simp add: postTurnstileEvent_def retrieve_def recordedToday_def url_eval)

text \<open>The same call with the answer true reads the record and returns.\<close>

lemma postTurnstileEvent_same_day_returns_when_read:
  "postTurnstileEvent
     \<lparr>API_URL = ''https://api.mapbox.com'', EVENTS_URL = ''https://events.mapbox.com/events/v2'',
      REQUIRE_ACCESS_TOKEN = True, ACCESS_TOKEN = Some ''pk.default''\<rparr>
     \<lparr>localStorageAvailable = True, validateUuid = (\<lambda>v. v \<noteq> None),
      uuid = ''00000000-0000-4000-8000-000000000000'', now = 1700003600000,
      getDate = (\<lambda>v. v div 86400000 mod 28 + 1),
      toISOString = (\<lambda>v. ''2023-11-14T23:13:20.000Z''), version = ''0.50.0''\<rparr>
     [''mapbox.userTurnstileData'' \<mapsto>
        Json \<lparr>anonId = Some ''11111111-1111-4111-8111-111111111111'',
              lastSuccess = Some 1700000000000\<rparr>]
   = Returned"
  by (simp add: postTurnstileEvent_def retrieve_def recordedToday_def newDate_def truthy_def)

end
